theory Spec2Isabelle
  imports Complex_Main
begin

text \<open>
  The indexing and retrieval core of DevForge, as functions of HOL: the line chunker, the
  prune and upsert of the vector index and the embedding of one file (\<open>embeddings.js\<close>, in
  the version that sanitizes the text it reads), the prune step and the embedding loop of
  \<open>readCommand\<close> (\<open>read.js\<close>), the selection of context blocks of \<open>chatCommand\<close> and
  \<open>readSlice\<close> (\<open>chat.js\<close>), and the language tally of \<open>scanRepo\<close> (\<open>scan.js\<close>).  Numbers are
  integers, except the scores, which are real numbers; what the code reads from the file
  system, the embeddings service and the clock is a parameter of the functions.
\<close>

section \<open>Strings and lines\<close>

text \<open>
  A JavaScript string is modelled as a \<^typ>\<open>string\<close>, one \<^typ>\<open>char\<close> per code unit, so
  that \<open>length\<close> is the source's \<open>.length\<close>.  \<open>LF\<close> and \<open>CR\<close> are the two characters
  the line separator \<open>/\r?\n/\<close> is made of.
\<close>

definition LF :: char where
  "LF = CHR 0x0A"

definition CR :: char where
  "CR = CHR 0x0D"

text \<open>
  \<open>text.split(/\r?\n/)\<close>: the regular expression is tried at every position from the left;
  it matches a line feed, or a carriage return directly followed by a line feed.  The
  result always has at least one element (the empty string gives \<open>[""]\<close>).
\<close>

fun add_char :: "char \<Rightarrow> string list \<Rightarrow> string list" where
  "add_char c [] = [[c]]"
| "add_char c (l # ls) = (c # l) # ls"

fun split_lines :: "string \<Rightarrow> string list" where
  "split_lines [] = [[]]"
| "split_lines [c] = (if c = LF then [[], []] else [[c]])"
| "split_lines (c # d # cs) =
     (if c = LF then [] # split_lines (d # cs)
      else if c = CR \<and> d = LF then [] # split_lines cs
      else add_char c (split_lines (d # cs)))"

text \<open>\<open>slice.join("\n")\<close>\<close>

fun join_lines :: "string list \<Rightarrow> string" where
  "join_lines [] = []"
| "join_lines [l] = l"
| "join_lines (l # m # ls) = l @ LF # join_lines (m # ls)"

text \<open>
  \<open>xs.slice(s, e)\<close> of JavaScript, for any two integers: a negative bound counts from
  the end, both bounds are clamped to the array, and the upper bound is exclusive.
\<close>

definition js_slice :: "'a list \<Rightarrow> int \<Rightarrow> int \<Rightarrow> 'a list" where
  "js_slice xs s e =
     (let n = int (length xs);
          k = (if s < 0 then max (n + s) 0 else min s n);
          f = (if e < 0 then max (n + e) 0 else min e n)
      in take (nat (f - k)) (drop (nat k) xs))"

section \<open>The chunker: \<open>chunkFileContent\<close>\<close>

record chunk =
  chunk_text :: string
  chunk_start :: nat
  chunk_end :: nat

text \<open>
  The inner loop of \<open>chunkFileContent\<close>:
  \<^verbatim>\<open>while (end < lines.length && size + lines[end].length + 1 <= maxChars)
     { size += lines[end].length + 1; end++; }\<close>
  It returns the final \<open>end\<close>.
\<close>

function packLines :: "string list \<Rightarrow> int \<Rightarrow> nat \<Rightarrow> int \<Rightarrow> nat" where
  "packLines lns maxChars e sz =
     (if e < length lns \<and> sz + int (length (lns ! e)) + 1 \<le> maxChars
      then packLines lns maxChars (Suc e) (sz + int (length (lns ! e)) + 1)
      else e)"
  by pat_completeness auto
termination
  by (relation "measure (\<lambda>(lns, maxChars, e, sz). length lns - e)") auto

declare packLines.simps [simp del]

text \<open>
  The start of the next window:
  \<^verbatim>\<open>const nextStart = Math.max(end - Math.floor(overlap / 80), end - 3);
  start = Math.max(start + 1, nextStart);\<close>
  The result is at least \<open>start + 1\<close>, hence a natural number.
\<close>

definition nextStartLine :: "int \<Rightarrow> nat \<Rightarrow> nat \<Rightarrow> nat" where
  "nextStartLine overlap start e =
     (let nextStart = max (int e - overlap div 80) (int e - 3)
      in nat (max (int start + 1) nextStart))"

text \<open>
  The chunk pushed for a window, if any: \<open>if (slice.length) chunks.push({text, start,
  end: Math.max(0, end - 1)})\<close>, where \<open>slice = lines.slice(start, end)\<close>.
\<close>

definition windowChunk :: "string list \<Rightarrow> nat \<Rightarrow> nat \<Rightarrow> chunk" where
  "windowChunk lns start e =
     \<lparr>chunk_text = join_lines (js_slice lns (int start) (int e)), chunk_start = start,
      chunk_end = nat (max 0 (int e - 1))\<rparr>"

definition pushWindow :: "string list \<Rightarrow> nat \<Rightarrow> nat \<Rightarrow> chunk list \<Rightarrow> chunk list" where
  "pushWindow lns start e chunks =
     (let slice = js_slice lns (int start) (int e)
      in if slice \<noteq> [] then chunks @ [windowChunk lns start e] else chunks)"

text \<open>
  The outer loop \<open>while (start < lines.length) { ... }\<close>.  Nothing in the definition says
  that the loop ends: \<open>None\<close> is the loop that runs forever.
\<close>

partial_function (option) chunk_while ::
  "string list \<Rightarrow> int \<Rightarrow> int \<Rightarrow> nat \<Rightarrow> chunk list \<Rightarrow> chunk list option" where
  "chunk_while lns maxChars overlap start chunks =
     (if start < length lns then
        (let e = packLines lns maxChars start 0;
             chunks' = pushWindow lns start e chunks
         in if e \<ge> length lns then Some chunks'
            else chunk_while lns maxChars overlap (nextStartLine overlap start e) chunks')
      else Some chunks)"

declare chunk_while.simps [code]

definition chunkFileContent :: "string \<Rightarrow> int \<Rightarrow> int \<Rightarrow> chunk list option" where
  "chunkFileContent text maxChars overlap = chunk_while (split_lines text) maxChars overlap 0 []"

text \<open>Line \<open>i\<close> lies in the range \<open>[start, end]\<close> of one of the chunks.\<close>

definition covered :: "chunk list \<Rightarrow> nat \<Rightarrow> bool" where
  "covered cs i = list_ex (\<lambda>c. chunk_start c \<le> i \<and> i \<le> chunk_end c) cs"

section \<open>The vector index: prune and upsert\<close>

type_synonym vector = "real list"

text \<open>
  An entry of \<open>index.chunks\<close>.  The index is read back from JSON, so \<open>vector\<close> and
  \<open>updated_at\<close> may be absent (\<open>None\<close>) and the line numbers are any integers.
\<close>

record index_entry =
  entry_path :: string
  entry_hash :: string
  entry_chunkId :: nat
  entry_start :: int
  entry_end :: int
  entry_vector :: "vector option"
  entry_updated_at :: "string option"

record vindex =
  version :: nat
  chunks :: "index_entry list"

record file_record =
  file_path :: string
  file_sizeKB :: nat
  file_hash :: string

text \<open>\<open>dropFilesFromIndex(index, removedPaths)\<close>: the index is updated in place and returned.\<close>

definition dropFilesFromIndex :: "vindex \<Rightarrow> string list \<Rightarrow> vindex" where
  "dropFilesFromIndex index removedPaths =
     (if removedPaths = [] then index
      else index\<lparr>chunks := filter (\<lambda>c. entry_path c \<notin> set removedPaths) (chunks index)\<rparr>)"

definition dropFileFromIndexByPath :: "vindex \<Rightarrow> string \<Rightarrow> vindex" where
  "dropFileFromIndexByPath index pathStr =
     index\<lparr>chunks := filter (\<lambda>c. entry_path c \<noteq> pathStr) (chunks index)\<rparr>"

text \<open>
  The prune step of \<open>readCommand\<close>:
  \<^verbatim>\<open>const before = index.chunks.length;
  const pruned = before - (dropFilesFromIndex(index, removedFiles).chunks.length);\<close>
  It gives the number of entries removed and the pruned index.  (\<open>readCommand\<close> runs it
  only when \<open>removedFiles\<close> is not empty.)
\<close>

definition pruneFiles :: "vindex \<Rightarrow> string list \<Rightarrow> int \<times> vindex" where
  "pruneFiles index removedFiles =
     (let before = int (length (chunks index));
          index' = dropFilesFromIndex index removedFiles
      in (before - int (length (chunks index')), index'))"

text \<open>
  What \<open>embedFile\<close> reads from outside: the file system (\<open>None\<close>: \<open>readFileSync\<close> throws),
  \<open>sanitizeText\<close> (its replacements are on code units beyond \<^typ>\<open>char\<close>, and it always
  returns a string, so it is taken as any function), the embeddings service (one request
  per text, which fails or gives a vector) and the clock behind \<open>new Date()\<close>.
\<close>

datatype embed_error = ApiFailed | InvalidResponse

record world =
  readFile :: "string \<Rightarrow> string option"
  sanitizeText :: "string \<Rightarrow> string"
  ollamaEmbed :: "string \<Rightarrow> embed_error + vector"
  clock :: "nat \<Rightarrow> string"

text \<open>
  \<open>embedTexts\<close>: the texts are sent one after the other (the batches only pace the
  requests); the first failure is thrown, otherwise there is one vector per text.
\<close>

fun embedAll :: "(string \<Rightarrow> embed_error + vector) \<Rightarrow> string list \<Rightarrow> embed_error + vector list" where
  "embedAll svc [] = Inr []"
| "embedAll svc (t # ts) =
     (case svc t of
        Inl err \<Rightarrow> Inl err
      | Inr v \<Rightarrow> (case embedAll svc ts of Inl err \<Rightarrow> Inl err | Inr vs \<Rightarrow> Inr (v # vs)))"

definition embedTexts :: "(string \<Rightarrow> embed_error + vector) \<Rightarrow> string list \<Rightarrow> embed_error + vector list" where
  "embedTexts svc texts = (if texts = [] then Inr [] else embedAll svc texts)"

text \<open>
  \<open>!text.trim()\<close>: the text is empty once its white space is trimmed, that is, it holds
  white space only (of the code units a \<^typ>\<open>char\<close> can hold: tab, line feed, vertical
  tab, form feed, carriage return, space, no-break space).
\<close>

definition isWhiteSpace :: "char \<Rightarrow> bool" where
  "isWhiteSpace c = (of_char c \<in> {9, 10, 11, 12, 13, 32, 160 :: nat})"

definition isBlank :: "string \<Rightarrow> bool" where
  "isBlank text = list_all isWhiteSpace text"

text \<open>
  The entries pushed by the insertion loop of \<open>embedFile\<close>; \<open>vectors[i]\<close> out of range is
  \<open>undefined\<close>, an absent vector.
\<close>

definition freshEntry :: "(nat \<Rightarrow> string) \<Rightarrow> file_record \<Rightarrow> chunk list \<Rightarrow> vector list \<Rightarrow> nat \<Rightarrow> index_entry" where
  "freshEntry now file cks vectors i =
     \<lparr>entry_path = file_path file, entry_hash = file_hash file, entry_chunkId = i,
      entry_start = int (chunk_start (cks ! i)), entry_end = int (chunk_end (cks ! i)),
      entry_vector = (if i < length vectors then Some (vectors ! i) else None),
      entry_updated_at = Some (now i)\<rparr>"

definition insertChunks :: "(nat \<Rightarrow> string) \<Rightarrow> file_record \<Rightarrow> chunk list \<Rightarrow> vector list \<Rightarrow> vindex \<Rightarrow> vindex" where
  "insertChunks now file cks vectors index =
     index\<lparr>chunks := chunks index @ map (freshEntry now file cks vectors) [0..<length cks]\<rparr>"

text \<open>
  \<open>embedFile\<close>.  The result is what the call does (\<open>Inl\<close>: it throws; \<open>Inr added\<close>: it
  returns \<open>{ added }\<close>) together with the index as the call leaves it, the index being
  updated in place.  \<open>None\<close> is a call that does not return.
\<close>

definition embedFile :: "world \<Rightarrow> file_record \<Rightarrow> vindex \<Rightarrow> ((embed_error + nat) \<times> vindex) option" where
  "embedFile w file index =
     (case readFile w (file_path file) of
        None \<Rightarrow> Some (Inr 0, index)
      | Some rawText \<Rightarrow>
          (let text = sanitizeText w rawText in
           if isBlank text then Some (Inr 0, index)
           else
             (case chunkFileContent text 2000 200 of
                None \<Rightarrow> None
              | Some cks \<Rightarrow>
                  if cks = [] then Some (Inr 0, index)
                  else
                    (case embedTexts (ollamaEmbed w) (map chunk_text cks) of
                       Inl err \<Rightarrow> Some (Inl err, index)
                     | Inr vectors \<Rightarrow>
                         Some (Inr (length cks),
                               insertChunks (clock w) file cks vectors
                                 (dropFileFromIndexByPath index (file_path file)))))))"

text \<open>
  The embedding loop of \<open>readCommand\<close> over \<open>toProcess\<close>: a call of \<open>embedFile\<close> that
  throws is caught and reported, and the loop goes on.  It returns \<open>totalNewChunks\<close> and
  the index.
\<close>

fun processFiles :: "world \<Rightarrow> file_record list \<Rightarrow> vindex \<Rightarrow> nat \<Rightarrow> (nat \<times> vindex) option" where
  "processFiles w [] index totalNewChunks = Some (totalNewChunks, index)"
| "processFiles w (f # fs) index totalNewChunks =
     (case embedFile w f index of
        None \<Rightarrow> None
      | Some (Inr added, index') \<Rightarrow> processFiles w fs index' (totalNewChunks + added)
      | Some (Inl err, index') \<Rightarrow> processFiles w fs index' totalNewChunks)"

section \<open>Retrieval: \<open>chatCommand\<close>\<close>

text \<open>
  A scored entry \<open>{ score, ...c }\<close>.  The scores are floating-point numbers in the source;
  here they are real numbers, and the similarity \<open>cosine\<close> is a parameter of the model.
\<close>

record scored = index_entry +
  score :: real

definition withScore :: "real \<Rightarrow> index_entry \<Rightarrow> scored" where
  "withScore x c =
     \<lparr>entry_path = entry_path c, entry_hash = entry_hash c, entry_chunkId = entry_chunkId c,
      entry_start = entry_start c, entry_end = entry_end c, entry_vector = entry_vector c,
      entry_updated_at = entry_updated_at c, score = x\<rparr>"

text \<open>\<open>c.updated_at ? 1e-6 : 0\<close>: an absent or empty time stamp gives no boost.\<close>

definition freshnessBoost :: "index_entry \<Rightarrow> real" where
  "freshnessBoost c =
     (case entry_updated_at c of None \<Rightarrow> 0 | Some t \<Rightarrow> if t = [] then 0 else 1 / 1000000)"

text \<open>The scoring loop: an entry whose vector is not an array is skipped.\<close>

fun scoreChunks :: "(vector \<Rightarrow> vector \<Rightarrow> real) \<Rightarrow> vector \<Rightarrow> index_entry list \<Rightarrow> scored list" where
  "scoreChunks cosine qVec [] = []"
| "scoreChunks cosine qVec (c # cs) =
     (case entry_vector c of
        None \<Rightarrow> scoreChunks cosine qVec cs
      | Some v \<Rightarrow> withScore (cosine qVec v + freshnessBoost c) c # scoreChunks cosine qVec cs)"

text \<open>\<open>xs.sort((a,b) => b.score - a.score)\<close>: a stable sort, highest score first.\<close>

definition sortByScore :: "scored list \<Rightarrow> scored list" where
  "sortByScore xs = sort_key (\<lambda>s. - score s) xs"

text \<open>
  \<open>byFile\<close> is a \<open>Map\<close>, which keeps its keys in the order of their insertion: a list
  of pairs without repeated keys.
  \<^verbatim>\<open>if (!byFile.has(s.path)) byFile.set(s.path, []);
  byFile.get(s.path).push(s);\<close>
\<close>

definition addToFile :: "(string \<times> scored list) list \<Rightarrow> scored \<Rightarrow> (string \<times> scored list) list" where
  "addToFile byFile s =
     (let byFile' = (if entry_path s \<in> set (map fst byFile) then byFile
                     else byFile @ [(entry_path s, [])])
      in map (\<lambda>(p, arr). if p = entry_path s then (p, arr @ [s]) else (p, arr)) byFile')"

definition groupByFile :: "scored list \<Rightarrow> (string \<times> scored list) list" where
  "groupByFile xs = foldl addToFile [] xs"

text \<open>
  \<^verbatim>\<open>for (const [p, arr] of byFile) {
    arr.sort((a,b)=>b.score-a.score); pick.push(arr[0]); if (pick.length >= k) break; }\<close>
  \<open>arr[0]\<close> of an empty array is \<open>undefined\<close>, whose \<open>path\<close> is read later with a
  \<open>TypeError\<close>: the result \<open>None\<close>.
\<close>

fun pickBest :: "nat \<Rightarrow> (string \<times> scored list) list \<Rightarrow> scored list \<Rightarrow> scored list option" where
  "pickBest k [] pick = Some pick"
| "pickBest k ((p, arr) # byFile) pick =
     (case sortByScore arr of
        [] \<Rightarrow> None
      | best # _ \<Rightarrow>
          (let pick' = pick @ [best]
           in if length pick' \<ge> k then Some pick' else pickBest k byFile pick'))"

text \<open>\<open>while (pick.length < k && pick.length < scored.length) pick.push(scored[pick.length]);\<close>\<close>

function fillUp :: "nat \<Rightarrow> scored list \<Rightarrow> scored list \<Rightarrow> scored list" where
  "fillUp k xs pick =
     (if length pick < k \<and> length pick < length xs
      then fillUp k xs (pick @ [xs ! length pick])
      else pick)"
  by pat_completeness auto
termination
  by (relation "measure (\<lambda>(k, xs, pick). length xs - length pick)") auto

declare fillUp.simps [simp del]

text \<open>From the scored entries to \<open>pick.slice(0, k)\<close>.\<close>

definition selectTop :: "nat \<Rightarrow> scored list \<Rightarrow> scored list option" where
  "selectTop k xs =
     (let ranked = sortByScore xs
      in case pickBest k (groupByFile ranked) [] of
           None \<Rightarrow> None
         | Some pick \<Rightarrow> Some (take k (fillUp k ranked pick)))"

text \<open>\<open>x|0\<close>: the conversion to a signed 32-bit integer.\<close>

definition toInt32 :: "int \<Rightarrow> int" where
  "toInt32 x = (x + 2147483648) mod 4294967296 - 2147483648"

text \<open>\<open>readSlice(absPath, start, end)\<close>; \<open>None\<close>: \<open>readFileSync\<close> throws.\<close>

definition readSlice :: "(string \<Rightarrow> string option) \<Rightarrow> string \<Rightarrow> int \<Rightarrow> int \<Rightarrow> string option" where
  "readSlice fs absPath start e =
     (case fs absPath of
        None \<Rightarrow> None
      | Some txt \<Rightarrow>
          (let lns = split_lines txt;
               s = max 0 (toInt32 start);
               e' = min (int (length lns)) (toInt32 e)
           in Some (join_lines (js_slice lns s e'))))"

record context_block =
  block_path :: string
  block_start :: int
  block_end :: int
  block_text :: string

text \<open>\<open>let text = ""; try { text = readSlice(abs, c.start, c.end); } catch {}\<close>\<close>

definition contextBlock :: "(string \<Rightarrow> string option) \<Rightarrow> scored \<Rightarrow> context_block" where
  "contextBlock fs c =
     \<lparr>block_path = entry_path c, block_start = entry_start c, block_end = entry_end c,
      block_text = (case readSlice fs (entry_path c) (entry_start c) (entry_end c) of
                      None \<Rightarrow> [] | Some t \<Rightarrow> t)\<rparr>"

definition retrieve ::
  "(string \<Rightarrow> string option) \<Rightarrow> (vector \<Rightarrow> vector \<Rightarrow> real) \<Rightarrow> vector \<Rightarrow> nat \<Rightarrow> vindex \<Rightarrow> context_block list option" where
  "retrieve fs cosine qVec k index =
     (case selectTop k (scoreChunks cosine qVec (chunks index)) of
        None \<Rightarrow> None
      | Some pick \<Rightarrow> Some (map (contextBlock fs) pick))"

section \<open>The scan: \<open>scanRepo\<close>\<close>

text \<open>\<open>rel.split(".")\<close>: the pieces between the dots, at least one.\<close>

fun splitDot :: "string \<Rightarrow> string list" where
  "splitDot [] = [[]]"
| "splitDot (c # cs) = (if c = CHR ''.'' then [] # splitDot cs else add_char c (splitDot cs))"

text \<open>
  \<open>toLowerCase\<close> on the code units a \<^typ>\<open>char\<close> holds: the capital letters \<open>A\<close> to \<open>Z\<close>, and
  the capital letters of Latin-1 from \<open>0xC0\<close> to \<open>0xDE\<close> but the multiplication sign \<open>0xD7\<close>,
  are 32 below their small letters; every other code unit is left as it is.
\<close>

definition toLowerChar :: "char \<Rightarrow> char" where
  "toLowerChar c =
     (let n = of_char c :: nat
      in if (65 \<le> n \<and> n \<le> 90) \<or> (192 \<le> n \<and> n \<le> 222 \<and> n \<noteq> 215)
         then char_of (n + 32) else c)"

text \<open>\<open>(rel.split(".").pop() || "").toLowerCase()\<close>\<close>

definition fileExt :: "string \<Rightarrow> string" where
  "fileExt rel = map toLowerChar (last (splitDot rel))"

text \<open>
  \<open>if (ext) languages[ext] = (languages[ext] || 0) + 1;\<close>, with \<open>languages\<close> as a map from
  extensions to counts.  In the source \<open>languages\<close> is a plain object, which answers for
  the two extensions \<open>constructor\<close> and \<open>__proto__\<close> with what it inherits; the map
  does not, and counts them as any other extension.
\<close>

definition tally :: "(string \<rightharpoonup> nat) \<Rightarrow> string \<Rightarrow> (string \<rightharpoonup> nat)" where
  "tally languages rel =
     (let ext = fileExt rel
      in if ext \<noteq> []
         then languages(ext \<mapsto> (case languages ext of None \<Rightarrow> 0 | Some n \<Rightarrow> n) + 1)
         else languages)"

text \<open>
  The loop of \<open>scanRepo\<close> over the paths the glob gives.  \<open>stat\<close> is the size in bytes
  (\<open>None\<close>: \<open>statSync\<close> throws, the file is passed over), \<open>hashOf\<close> the digest of the file.
  The digest is taken of a file that can be read: \<open>hashFileFull\<close> reads the file outside
  any \<open>try\<close>, and a scan in which this read throws is not a run of the loop below.
\<close>

fun scanLoop ::
  "(string \<Rightarrow> nat option) \<Rightarrow> (string \<Rightarrow> string) \<Rightarrow> nat \<Rightarrow> string list \<Rightarrow>
   file_record list \<times> (string \<rightharpoonup> nat) \<Rightarrow> file_record list \<times> (string \<rightharpoonup> nat)" where
  "scanLoop stat hashOf maxFileKB [] (files, languages) = (files, languages)"
| "scanLoop stat hashOf maxFileKB (rel # rels) (files, languages) =
     (case stat rel of
        None \<Rightarrow> scanLoop stat hashOf maxFileKB rels (files, languages)
      | Some bytes \<Rightarrow>
          (let sizeKB = (bytes + 1023) div 1024
           in if sizeKB > maxFileKB then scanLoop stat hashOf maxFileKB rels (files, languages)
              else scanLoop stat hashOf maxFileKB rels
                     (files @ [\<lparr>file_path = rel, file_sizeKB = sizeKB, file_hash = hashOf rel\<rparr>],
                      tally languages rel)))"

definition scanRepo ::
  "(string \<Rightarrow> nat option) \<Rightarrow> (string \<Rightarrow> string) \<Rightarrow> nat \<Rightarrow> string list \<Rightarrow>
   file_record list \<times> (string \<rightharpoonup> nat)" where
  "scanRepo stat hashOf maxFileKB relPaths = scanLoop stat hashOf maxFileKB relPaths ([], Map.empty)"

text \<open>
  The representatives of a ranked list, for stating what \<open>pickBest\<close> selects: the first
  entry of every file, in the order of the list.
\<close>

definition addRepresentative :: "scored list \<Rightarrow> scored \<Rightarrow> scored list" where
  "addRepresentative reps s = (if entry_path s \<in> set (map entry_path reps) then reps else reps @ [s])"

definition representatives :: "scored list \<Rightarrow> scored list" where
  "representatives xs = foldl addRepresentative [] xs"

text \<open>
  For stating what the tally holds: the number of scanned files with a given extension,
  and the tally that counts exactly these for every extension that is not empty.
\<close>

definition extCount :: "file_record list \<Rightarrow> string \<Rightarrow> nat" where
  "extCount files ext = length (filter (\<lambda>f. fileExt (file_path f) = ext) files)"

definition tallied :: "file_record list \<Rightarrow> (string \<rightharpoonup> nat) \<Rightarrow> bool" where
  "tallied files languages =
     (\<forall>ext. languages ext =
        (if ext \<noteq> [] \<and> 0 < extCount files ext then Some (extCount files ext) else None))"

section \<open>A small repository, for concrete runs\<close>

text \<open>
  Three files: \<open>a.txt\<close> holds one line, \<open>bad.txt\<close> holds a text the embeddings service
  refuses, \<open>blank.txt\<close> holds a single space; any other path cannot be read.
\<close>

definition exampleWorld :: world where
  "exampleWorld =
     \<lparr>readFile = (\<lambda>p. if p = ''a.txt'' then Some ''ab''
                      else if p = ''bad.txt'' then Some ''boom''
                      else if p = ''blank.txt'' then Some '' ''
                      else None),
      sanitizeText = (\<lambda>t. t),
      ollamaEmbed = (\<lambda>t. if t = ''boom'' then Inl ApiFailed else Inr [1]),
      clock = (\<lambda>i. ''now'')\<rparr>"

definition oldEntry :: "string \<Rightarrow> nat \<Rightarrow> index_entry" where
  "oldEntry p i =
     \<lparr>entry_path = p, entry_hash = ''old'', entry_chunkId = i, entry_start = 0, entry_end = 0,
      entry_vector = Some [0], entry_updated_at = None\<rparr>"

definition exampleIndex :: vindex where
  "exampleIndex =
     \<lparr>version = 1,
      chunks = [oldEntry ''a.txt'' 0, oldEntry ''b.txt'' 0, oldEntry ''a.txt'' 1, oldEntry ''bad.txt'' 0]\<rparr>"

definition exampleFile :: "string \<Rightarrow> file_record" where
  "exampleFile p = \<lparr>file_path = p, file_sizeKB = 1, file_hash = ''new''\<rparr>"

text \<open>An index entry of file \<open>p\<close> whose vector is the single number \<open>x\<close>.\<close>

definition exampleEntry :: "string \<Rightarrow> nat \<Rightarrow> real \<Rightarrow> index_entry" where
  "exampleEntry p i x =
     \<lparr>entry_path = p, entry_hash = ''h'', entry_chunkId = i, entry_start = 0, entry_end = 0,
      entry_vector = Some [x], entry_updated_at = None\<rparr>"

section \<open>Properties of the chunker\<close>

subsection \<open>The inner loop\<close>

lemma packLines_ge: "e \<le> packLines lns mc e sz"
proof (induction lns mc e sz rule: packLines.induct)
  case (1 lns mc e sz)
  show ?case
    by (subst packLines.simps) (use 1 in \<open>auto simp: Suc_leD\<close>)
qed

lemma packLines_le: "e \<le> length lns \<Longrightarrow> packLines lns mc e sz \<le> length lns"
proof (induction lns mc e sz rule: packLines.induct)
  case (1 lns mc e sz)
  show ?case
    by (subst packLines.simps) (use 1 in auto)
qed

text \<open>Every line the inner loop takes fits the budget on its own.\<close>

lemma packLines_fits:
  "0 \<le> sz \<Longrightarrow> e \<le> i \<Longrightarrow> i < packLines lns mc e sz \<Longrightarrow> int (length (lns ! i)) + 1 \<le> mc"
proof (induction lns mc e sz rule: packLines.induct)
  case (1 lns mc e sz)
  show ?case
  proof (cases "e < length lns \<and> sz + int (length (lns ! e)) + 1 \<le> mc")
    case False
    have "packLines lns mc e sz = e"
      by (subst packLines.simps) (use False in auto)
    with 1 show ?thesis by simp
  next
    case True
    have eq: "packLines lns mc e sz = packLines lns mc (Suc e) (sz + int (length (lns ! e)) + 1)"
      by (subst packLines.simps) (use True in simp)
    show ?thesis
    proof (cases "i = e")
      case True
      with \<open>e < length lns \<and> sz + int (length (lns ! e)) + 1 \<le> mc\<close> 1(2) show ?thesis by simp
    next
      case False
      with 1(3) have "Suc e \<le> i" by simp
      moreover have "0 \<le> sz + int (length (lns ! e)) + 1" using 1(2) by simp
      ultimately show ?thesis using 1(1) [OF True] 1(4) eq by simp
    qed
  qed
qed

text \<open>The inner loop takes no line only when the first one does not fit.\<close>

lemma packLines_stuck:
  assumes "packLines lns mc e sz = e" "e < length lns"
  shows "\<not> sz + int (length (lns ! e)) + 1 \<le> mc"
proof
  assume h: "sz + int (length (lns ! e)) + 1 \<le> mc"
  have "packLines lns mc e sz = packLines lns mc (Suc e) (sz + int (length (lns ! e)) + 1)"
    by (subst packLines.simps) (use h assms(2) in simp)
  with packLines_ge [of "Suc e" lns mc "sz + int (length (lns ! e)) + 1"] assms(1)
  show False by simp
qed

subsection \<open>Windows\<close>

lemma js_slice_nat:
  assumes "s \<le> e" "e \<le> length xs"
  shows "js_slice xs (int s) (int e) = map ((!) xs) [s..<e]"
proof -
  have "js_slice xs (int s) (int e) = take (e - s) (drop s xs)"
    using assms by (simp add: js_slice_def Let_def min_def nat_diff_distrib')
  also have "\<dots> = map ((!) xs) [s..<e]"
    using assms by (intro nth_equalityI) auto
  finally show ?thesis .
qed

lemma windowChunk_eq:
  assumes "s < e" "e \<le> length lns"
  shows "windowChunk lns s e =
    \<lparr>chunk_text = join_lines (map ((!) lns) [s..<e]), chunk_start = s, chunk_end = e - 1\<rparr>"
  using assms by (simp add: windowChunk_def js_slice_nat nat_diff_distrib')

lemma pushWindow_eq:
  assumes "s \<le> e" "e \<le> length lns"
  shows "pushWindow lns s e acc = (if s < e then acc @ [windowChunk lns s e] else acc)"
  using assms by (auto simp: pushWindow_def js_slice_nat Let_def)

lemma nextStartLine_gt: "start < nextStartLine overlap start e"
  by (simp add: nextStartLine_def Let_def)

lemma nextStartLine_le: "0 \<le> overlap \<Longrightarrow> start < e \<Longrightarrow> nextStartLine overlap start e \<le> e"
proof -
  assume a: "0 \<le> overlap" "start < e"
  then have "0 \<le> overlap div 80" by simp
  with a show ?thesis by (simp add: nextStartLine_def Let_def)
qed

lemma nextStartLine_stuck: "0 \<le> overlap \<Longrightarrow> nextStartLine overlap start start = Suc start"
proof -
  assume a: "0 \<le> overlap"
  then have "0 \<le> overlap div 80" by simp
  then show ?thesis by (simp add: nextStartLine_def Let_def)
qed

subsection \<open>The outer loop\<close>

lemma chunk_while_step:
  assumes "start < length lns"
  shows "chunk_while lns mc ov start acc =
    (let e = packLines lns mc start 0;
         acc' = (if start < e then acc @ [windowChunk lns start e] else acc)
     in if length lns \<le> e then Some acc'
        else chunk_while lns mc ov (nextStartLine ov start e) acc')"
proof -
  have "start \<le> packLines lns mc start 0" "packLines lns mc start 0 \<le> length lns"
    using assms by (simp_all add: packLines_ge packLines_le)
  then show ?thesis
    by (subst chunk_while.simps) (simp add: assms Let_def pushWindow_eq)
qed

lemma chunk_while_done:
  "\<not> start < length lns \<Longrightarrow> chunk_while lns mc ov start acc = Some acc"
  by (subst chunk_while.simps) simp

text \<open>The loop returns from every state: the distance to the last line decreases.\<close>

lemma chunk_while_total: "\<exists>cs. chunk_while lns mc ov start acc = Some cs"
proof (induction "length lns - start" arbitrary: start acc rule: less_induct)
  case less
  show ?case
  proof (cases "start < length lns")
    case False
    then show ?thesis by (simp add: chunk_while_done)
  next
    case True
    have "length lns - nextStartLine ov start e < length lns - start" for e
      using True nextStartLine_gt [of start ov e] by arith
    then have "\<exists>cs. chunk_while lns mc ov (nextStartLine ov start e) ch = Some cs" for e ch
      using less by blast
    then show ?thesis
      by (simp add: chunk_while_step [OF True] Let_def)
  qed
qed

text \<open>Every chunk of the result is a chunk the loop started with, or a non-empty window.\<close>

lemma chunk_while_mem:
  assumes "chunk_while lns mc ov start acc = Some cs" "c \<in> set cs"
  shows "c \<in> set acc \<or>
    (\<exists>s. start \<le> s \<and> s < length lns \<and> s < packLines lns mc s 0 \<and>
         c = windowChunk lns s (packLines lns mc s 0))"
  using assms
proof (induction "length lns - start" arbitrary: start acc rule: less_induct)
  case less
  show ?case
  proof (cases "start < length lns")
    case False
    with less.prems show ?thesis by (simp add: chunk_while_done)
  next
    case True
    define e where "e = packLines lns mc start 0"
    define acc' where "acc' = (if start < e then acc @ [windowChunk lns start e] else acc)"
    have step: "chunk_while lns mc ov start acc =
      (if length lns \<le> e then Some acc'
       else chunk_while lns mc ov (nextStartLine ov start e) acc')"
      using chunk_while_step [OF True, of mc ov acc] unfolding e_def acc'_def Let_def .
    have mem': "c' \<in> set acc' \<Longrightarrow> c' \<in> set acc \<or> (start < e \<and> c' = windowChunk lns start e)" for c'
      by (auto simp: acc'_def split: if_splits)
    show ?thesis
    proof (cases "length lns \<le> e")
      case True
      with step less.prems(1) have "cs = acc'" by simp
      with less.prems(2) mem' [of c] \<open>start < length lns\<close> show ?thesis
        unfolding e_def by blast
    next
      case False
      let ?s' = "nextStartLine ov start e"
      have gt: "start < ?s'" by (rule nextStartLine_gt)
      from False step less.prems(1)
      have rec: "chunk_while lns mc ov ?s' acc' = Some cs" by simp
      have "length lns - ?s' < length lns - start"
        using gt \<open>start < length lns\<close> by arith
      from less.hyps [OF this rec less.prems(2)]
      consider "c \<in> set acc'"
        | s where "?s' \<le> s" "s < length lns" "s < packLines lns mc s 0"
            "c = windowChunk lns s (packLines lns mc s 0)"
        by blast
      then show ?thesis
      proof cases
        case 1
        with mem' [of c] \<open>start < length lns\<close> show ?thesis unfolding e_def by blast
      next
        case 2
        with gt have "start \<le> s" by simp
        with 2 show ?thesis by blast
      qed
    qed
  qed
qed

lemma covered_append: "covered (cs @ ds) i \<longleftrightarrow> covered cs i \<or> covered ds i"
  by (auto simp: covered_def list_ex_iff)

lemma covered_window:
  "s < e \<Longrightarrow> e \<le> length lns \<Longrightarrow> covered [windowChunk lns s e] i \<longleftrightarrow> s \<le> i \<and> i < e"
  by (auto simp: covered_def windowChunk_eq)

text \<open>
  With an overlap that is not negative, the windows from \<open>start\<close> on cover the lines
  that fit the budget on their own, and no other line.
\<close>

lemma chunk_while_covered:
  assumes "0 \<le> ov" "chunk_while lns mc ov start acc = Some cs"
  shows "covered cs i \<longleftrightarrow>
    covered acc i \<or> (start \<le> i \<and> i < length lns \<and> int (length (lns ! i)) + 1 \<le> mc)"
  using assms(2)
proof (induction "length lns - start" arbitrary: start acc rule: less_induct)
  case less
  show ?case
  proof (cases "start < length lns")
    case False
    with less.prems show ?thesis by (auto simp: chunk_while_done)
  next
    case True
    define e where "e = packLines lns mc start 0"
    define acc' where "acc' = (if start < e then acc @ [windowChunk lns start e] else acc)"
    have step: "chunk_while lns mc ov start acc =
      (if length lns \<le> e then Some acc'
       else chunk_while lns mc ov (nextStartLine ov start e) acc')"
      using chunk_while_step [OF True, of mc ov acc] unfolding e_def acc'_def Let_def .
    have e_ge: "start \<le> e" and e_le: "e \<le> length lns"
      using True by (simp_all add: e_def packLines_ge packLines_le)
    have fits: "start \<le> j \<Longrightarrow> j < e \<Longrightarrow> int (length (lns ! j)) + 1 \<le> mc" for j
      unfolding e_def by (rule packLines_fits [of 0 start j lns mc]) simp_all
    have stuck: "e = start \<Longrightarrow> \<not> int (length (lns ! start)) + 1 \<le> mc"
      using packLines_stuck [of lns mc start 0] True by (simp add: e_def)
    have cov': "covered acc' i \<longleftrightarrow> covered acc i \<or> (start \<le> i \<and> i < e)"
      using e_le by (auto simp: acc'_def covered_append covered_window)
    show ?thesis
    proof (cases "length lns \<le> e")
      case True
      with step less.prems(1) have "cs = acc'" by simp
      moreover from True e_le have "e = length lns" by simp
      ultimately show ?thesis using cov' fits by auto
    next
      case False
      let ?s' = "nextStartLine ov start e"
      have gt: "start < ?s'" by (rule nextStartLine_gt)
      from False step less.prems(1)
      have rec: "chunk_while lns mc ov ?s' acc' = Some cs" by simp
      have "length lns - ?s' < length lns - start"
        using gt \<open>start < length lns\<close> by arith
      from less.hyps [OF this rec]
      have IH: "covered cs i \<longleftrightarrow>
        covered acc' i \<or> (?s' \<le> i \<and> i < length lns \<and> int (length (lns ! i)) + 1 \<le> mc)" .
      show ?thesis
      proof (cases "start < e")
        case True
        then have "?s' \<le> e" using assms(1) by (rule nextStartLine_le [rotated])
        with IH cov' gt fits e_le show ?thesis by (auto simp: not_le)
      next
        case False
        with e_ge have "e = start" by simp
        then have "?s' = Suc start" using assms(1) by (simp add: nextStartLine_stuck)
        with IH cov' stuck \<open>e = start\<close> show ?thesis
          by (auto simp: Suc_le_eq le_less)
      qed
    qed
  qed
qed

lemma chunkFileContent_total: "\<exists>cs. chunkFileContent text maxChars overlap = Some cs"
  by (simp add: chunkFileContent_def chunk_while_total)

lemma chunkFileContent_mem:
  assumes "chunkFileContent text maxChars overlap = Some cs" "c \<in> set cs"
  shows "\<exists>s n. s \<le> n \<and> n < length (split_lines text) \<and>
    c = \<lparr>chunk_text = join_lines (map ((!) (split_lines text)) [s..<Suc n]),
         chunk_start = s, chunk_end = n\<rparr>"
proof -
  let ?lns = "split_lines text"
  from chunk_while_mem [OF assms(1) [unfolded chunkFileContent_def] assms(2)]
  obtain s where s: "s < length ?lns" "s < packLines ?lns maxChars s 0"
    "c = windowChunk ?lns s (packLines ?lns maxChars s 0)"
    by auto
  from s(2) obtain n where n: "packLines ?lns maxChars s 0 = Suc n" "s \<le> n"
    by (cases "packLines ?lns maxChars s 0") auto
  from s(1) have "packLines ?lns maxChars s 0 \<le> length ?lns"
    by (simp add: packLines_le)
  with n have "n < length ?lns" by simp
  moreover from s(3) n \<open>n < length ?lns\<close>
  have "c = \<lparr>chunk_text = join_lines (map ((!) ?lns) [s..<Suc n]), chunk_start = s, chunk_end = n\<rparr>"
    by (simp add: windowChunk_eq)
  ultimately show ?thesis using n(2) by blast
qed

lemma packLines_end: "packLines lns mc (length lns) sz = length lns"
  by (subst packLines.simps) simp

lemma split_lines_no_LF: "LF \<notin> set t \<Longrightarrow> split_lines t = [t]"
  by (induction t rule: split_lines.induct) auto

text \<open>The empty string is one empty line, which fits any budget of at least one character.\<close>

lemma chunkFileContent_empty:
  "chunkFileContent [] maxChars overlap =
     Some (if 1 \<le> maxChars then [\<lparr>chunk_text = [], chunk_start = 0, chunk_end = 0\<rparr>] else [])"
proof (cases "1 \<le> maxChars")
  case True
  then have "packLines [[]] maxChars 0 0 = 1"
    by (subst packLines.simps) (simp add: packLines_end [of "[[]]", simplified])
  then show ?thesis
    using True by (simp add: chunkFileContent_def chunk_while_step Let_def windowChunk_eq)
next
  case False
  then have "packLines [[]] maxChars 0 0 = 0"
    by (subst packLines.simps) simp
  moreover have "\<not> nextStartLine overlap 0 0 < 1"
    using nextStartLine_gt [of 0 overlap 0] by simp
  ultimately show ?thesis
    using False by (simp add: chunkFileContent_def chunk_while_step Let_def chunk_while_done)
qed

subsection \<open>Termination\<close>

text \<open>
  C1. \<open>chunkFileContent\<close> returns for every text and every \<open>maxChars\<close> and \<open>overlap\<close>: the
  loop, which is defined with no assumption that it ends, gives a result; and the start
  line of the next window is strictly greater than the start line of the current one,
  whatever the overlap and wherever the window ended.
\<close>

theorem chunkFileContent_terminates:
  "(\<exists>cs. chunkFileContent text maxChars overlap = Some cs) \<and>
   (\<forall>start e. start < nextStartLine overlap start e)"
  by (simp add: chunkFileContent_def chunk_while_total nextStartLine_gt)

subsection \<open>Windows and coverage\<close>

text \<open>
  C2, as the claim states it, fails: a text of one line of 2000 characters, chunked with
  the default \<open>maxChars = 2000\<close> and \<open>overlap = 200\<close>, gives no chunk at all, so its line 0
  is in no window.
\<close>

theorem long_line_counterexample:
  "split_lines (replicate 2000 (CHR ''a'')) = [replicate 2000 (CHR ''a'')] \<and>
   chunkFileContent (replicate 2000 (CHR ''a'')) 2000 200 = Some [] \<and>
   \<not> covered (the (chunkFileContent (replicate 2000 (CHR ''a'')) 2000 200)) 0"
proof -
  let ?t = "replicate 2000 (CHR ''a'')"
  have sp: "split_lines ?t = [?t]"
    by (rule split_lines_no_LF) (simp add: LF_def)
  have pk: "packLines [?t] 2000 0 0 = 0"
    by (subst packLines.simps) simp
  have nx: "nextStartLine 200 0 0 = 1"
    by (simp add: nextStartLine_def)
  have "chunkFileContent ?t 2000 200 = Some []"
    by (simp add: chunkFileContent_def sp chunk_while_step pk Let_def nx chunk_while_done)
  with sp show ?thesis by (simp add: covered_def)
qed

text \<open>
  C2, amended.  Every window \<open>chunkFileContent\<close> produces is non-empty (its range
  \<open>[start, end]\<close> holds at least one line of the text, which may be an empty line), and,
  when \<open>overlap\<close> is not negative, the ranges of the windows cover exactly the lines that
  fit the budget on their own, that is, the lines \<open>i\<close> with \<open>length + 1 \<le> maxChars\<close>:
  every line of the text when all lines fit, and no line that is longer.
\<close>

theorem windows_cover_fitting_lines:
  assumes "chunkFileContent text maxChars overlap = Some cs"
  shows "(\<forall>c\<in>set cs. chunk_start c \<le> chunk_end c \<and> chunk_end c < length (split_lines text)) \<and>
    (0 \<le> overlap \<longrightarrow>
      (\<forall>i. covered cs i \<longleftrightarrow>
         i < length (split_lines text) \<and> int (length (split_lines text ! i)) + 1 \<le> maxChars))"
proof -
  have "chunk_start c \<le> chunk_end c \<and> chunk_end c < length (split_lines text)"
    if "c \<in> set cs" for c
    using chunkFileContent_mem [OF assms that] by auto
  moreover have "covered cs i \<longleftrightarrow>
      i < length (split_lines text) \<and> int (length (split_lines text ! i)) + 1 \<le> maxChars"
    if "0 \<le> overlap" for i
    using chunk_while_covered [OF that assms [unfolded chunkFileContent_def], of i]
    by (simp add: covered_def)
  ultimately show ?thesis by blast
qed

theorem windows_cover_fitting_lines_witness:
  "chunkFileContent (''ab'' @ [LF] @ ''cdef'' @ [LF] @ ''gh'') 4 200 =
     Some [\<lparr>chunk_text = ''ab'', chunk_start = 0, chunk_end = 0\<rparr>,
           \<lparr>chunk_text = ''gh'', chunk_start = 2, chunk_end = 2\<rparr>] \<and>
   split_lines (''ab'' @ [LF] @ ''cdef'' @ [LF] @ ''gh'') = [''ab'', ''cdef'', ''gh''] \<and>
   covered [\<lparr>chunk_text = ''ab'', chunk_start = 0, chunk_end = 0\<rparr>,
            \<lparr>chunk_text = ''gh'', chunk_start = 2, chunk_end = 2\<rparr>] 0 \<and>
   \<not> covered [\<lparr>chunk_text = ''ab'', chunk_start = 0, chunk_end = 0\<rparr>,
            \<lparr>chunk_text = ''gh'', chunk_start = 2, chunk_end = 2\<rparr>] 1 \<and>
   covered [\<lparr>chunk_text = ''ab'', chunk_start = 0, chunk_end = 0\<rparr>,
            \<lparr>chunk_text = ''gh'', chunk_start = 2, chunk_end = 2\<rparr>] 2"
proof -
  let ?t = "''ab'' @ [LF] @ ''cdef'' @ [LF] @ ''gh''"
  let ?cs = "[\<lparr>chunk_text = ''ab'', chunk_start = 0, chunk_end = 0\<rparr>,
              \<lparr>chunk_text = ''gh'', chunk_start = 2, chunk_end = 2\<rparr>]"
  have h: "chunkFileContent ?t 4 200 = Some ?cs" by code_simp
  have sp: "split_lines ?t = [''ab'', ''cdef'', ''gh'']" by code_simp
  have "(0::int) \<le> 200" by simp
  with windows_cover_fitting_lines [OF h]
  have cov: "covered ?cs i \<longleftrightarrow>
      i < length (split_lines ?t) \<and> int (length (split_lines ?t ! i)) + 1 \<le> 4" for i
    by blast
  have "covered ?cs 0" "\<not> covered ?cs 1" "covered ?cs 2"
    unfolding cov sp by simp_all
  with h sp show ?thesis by blast
qed

text \<open>
  C10. The text of every chunk is the lines of the input from its \<open>start\<close> to its \<open>end\<close>
  (0-based, both included), joined with a single line feed; the range is not empty and
  lies within the text.
\<close>

theorem chunk_text_is_line_range:
  assumes "chunkFileContent text maxChars overlap = Some cs" "c \<in> set cs"
  shows "chunk_start c \<le> chunk_end c \<and> chunk_end c < length (split_lines text) \<and>
    chunk_text c = join_lines (map ((!) (split_lines text)) [chunk_start c..<Suc (chunk_end c)])"
proof -
  from chunkFileContent_mem [OF assms]
  show ?thesis by auto
qed

theorem chunk_text_is_line_range_witness:
  "chunkFileContent (''ab'' @ [LF] @ ''cd'' @ [CR, LF] @ ''e'') 6 200 =
     Some [\<lparr>chunk_text = ''ab'' @ [LF] @ ''cd'', chunk_start = 0, chunk_end = 1\<rparr>,
           \<lparr>chunk_text = ''cd'' @ [LF] @ ''e'', chunk_start = 1, chunk_end = 2\<rparr>] \<and>
   ''cd'' @ [LF] @ ''e'' =
     join_lines (map ((!) (split_lines (''ab'' @ [LF] @ ''cd'' @ [CR, LF] @ ''e''))) [1..<Suc 2])"
proof -
  let ?t = "''ab'' @ [LF] @ ''cd'' @ [CR, LF] @ ''e''"
  let ?c = "\<lparr>chunk_text = ''cd'' @ [LF] @ ''e'', chunk_start = 1, chunk_end = 2\<rparr>"
  have h: "chunkFileContent ?t 6 200 =
     Some [\<lparr>chunk_text = ''ab'' @ [LF] @ ''cd'', chunk_start = 0, chunk_end = 1\<rparr>, ?c]"
    by code_simp
  from chunk_text_is_line_range [OF h, of ?c] h show ?thesis by simp
qed

section \<open>Properties of the index\<close>

subsection \<open>Pruning\<close>

lemma dropFilesFromIndex_chunks:
  "chunks (dropFilesFromIndex index paths) = filter (\<lambda>c. entry_path c \<notin> set paths) (chunks index)"
  by (simp add: dropFilesFromIndex_def)

lemma dropFilesFromIndex_eq:
  "dropFilesFromIndex index paths = index\<lparr>chunks := filter (\<lambda>c. entry_path c \<notin> set paths) (chunks index)\<rparr>"
  by (simp add: dropFilesFromIndex_def)

text \<open>
  C8. Pruning a list of paths keeps the entries of the other paths as they are and in
  their order, leaves no entry with one of the paths, counts the entries it removed, and
  with no path does nothing and counts zero.
\<close>

theorem pruneFiles_removes:
  "snd (pruneFiles index paths) = index\<lparr>chunks := filter (\<lambda>c. entry_path c \<notin> set paths) (chunks index)\<rparr> \<and>
   (\<forall>c\<in>set (chunks (snd (pruneFiles index paths))). entry_path c \<notin> set paths) \<and>
   fst (pruneFiles index paths) = int (length (filter (\<lambda>c. entry_path c \<in> set paths) (chunks index))) \<and>
   pruneFiles index [] = (0, index)"
proof -
  have len: "length (chunks index) =
      length (filter (\<lambda>c. entry_path c \<in> set paths) (chunks index)) +
      length (filter (\<lambda>c. entry_path c \<notin> set paths) (chunks index))"
    using sum_length_filter_compl [of "\<lambda>c. entry_path c \<in> set paths" "chunks index"] by simp
  have a: "snd (pruneFiles index paths) =
      index\<lparr>chunks := filter (\<lambda>c. entry_path c \<notin> set paths) (chunks index)\<rparr>"
    by (simp add: pruneFiles_def Let_def dropFilesFromIndex_eq)
  have b: "\<forall>c\<in>set (chunks (snd (pruneFiles index paths))). entry_path c \<notin> set paths"
    by (simp add: a)
  have c: "fst (pruneFiles index paths) =
      int (length (filter (\<lambda>c. entry_path c \<in> set paths) (chunks index)))"
    using len by (simp add: pruneFiles_def Let_def dropFilesFromIndex_chunks)
  have d: "pruneFiles index [] = (0, index)"
    by (simp add: pruneFiles_def Let_def dropFilesFromIndex_def)
  from a b c d show ?thesis by blast
qed

theorem pruneFiles_removes_witness:
  "pruneFiles exampleIndex [''a.txt'', ''bad.txt''] =
     (3, \<lparr>version = 1, chunks = [oldEntry ''b.txt'' 0]\<rparr>) \<and>
   list_all (\<lambda>c. entry_path c \<notin> set [''a.txt'', ''bad.txt''])
     (chunks (snd (pruneFiles exampleIndex [''a.txt'', ''bad.txt''])))"
proof -
  from pruneFiles_removes [of exampleIndex "[''a.txt'', ''bad.txt'']"]
  have a: "snd (pruneFiles exampleIndex [''a.txt'', ''bad.txt'']) =
       exampleIndex\<lparr>chunks := filter (\<lambda>c. entry_path c \<notin> set [''a.txt'', ''bad.txt'']) (chunks exampleIndex)\<rparr>"
    and b: "\<forall>c\<in>set (chunks (snd (pruneFiles exampleIndex [''a.txt'', ''bad.txt'']))).
       entry_path c \<notin> set [''a.txt'', ''bad.txt'']"
    and c: "fst (pruneFiles exampleIndex [''a.txt'', ''bad.txt'']) =
       int (length (filter (\<lambda>c. entry_path c \<in> set [''a.txt'', ''bad.txt'']) (chunks exampleIndex)))"
    by blast+
  have "pruneFiles exampleIndex [''a.txt'', ''bad.txt''] =
     (3, \<lparr>version = 1, chunks = [oldEntry ''b.txt'' 0]\<rparr>)"
    using a c by (simp add: prod_eq_iff exampleIndex_def oldEntry_def)
  with b show ?thesis by (simp add: list_all_iff)
qed

subsection \<open>Upsert\<close>

lemma embedAll_length: "embedAll svc texts = Inr vs \<Longrightarrow> length vs = length texts"
  by (induction texts arbitrary: vs) (auto split: sum.splits)

lemma embedAll_all_succeed:
  "embedAll svc texts = Inr vs \<Longrightarrow> t \<in> set texts \<Longrightarrow> \<not> isl (svc t)"
  by (induction texts arbitrary: vs) (auto split: sum.splits)

lemma embedAll_fails: "\<exists>t\<in>set texts. isl (svc t) \<Longrightarrow> isl (embedAll svc texts)"
  using embedAll_all_succeed [of svc texts] by (cases "embedAll svc texts") auto

lemma embedTexts_fails: "\<exists>t\<in>set texts. isl (svc t) \<Longrightarrow> isl (embedTexts svc texts)"
  using embedAll_fails [of texts svc] by (auto simp: embedTexts_def)

lemma embedTexts_length: "embedTexts svc texts = Inr vs \<Longrightarrow> length vs = length texts"
  by (auto simp: embedTexts_def embedAll_length split: if_splits)

lemma embedFile_readable:
  assumes "readFile w (file_path f) = Some raw"
    and "chunkFileContent (sanitizeText w raw) 2000 200 = Some cks"
  shows "embedFile w f index =
    (if isBlank (sanitizeText w raw) \<or> cks = [] then Some (Inr 0, index)
     else case embedTexts (ollamaEmbed w) (map chunk_text cks) of
            Inl err \<Rightarrow> Some (Inl err, index)
          | Inr vectors \<Rightarrow>
              Some (Inr (length cks),
                    insertChunks (clock w) f cks vectors
                      (dropFileFromIndexByPath index (file_path f))))"
  by (simp add: embedFile_def Let_def assms)

lemma embedFile_unreadable:
  "readFile w (file_path f) = None \<Longrightarrow> embedFile w f index = Some (Inr 0, index)"
  by (simp add: embedFile_def)

lemma embedFile_cases:
  obtains (skipped) "embedFile w f index = Some (Inr 0, index)"
  | (thrown) err where "embedFile w f index = Some (Inl err, index)"
  | (upserted) cks vectors where "cks \<noteq> []"
      "embedFile w f index =
         Some (Inr (length cks),
               insertChunks (clock w) f cks vectors
                 (dropFileFromIndexByPath index (file_path f)))"
proof (cases "readFile w (file_path f)")
  case None
  then show ?thesis using skipped by (simp add: embedFile_unreadable)
next
  case (Some raw)
  obtain cks where cks: "chunkFileContent (sanitizeText w raw) 2000 200 = Some cks"
    using chunkFileContent_total by blast
  note eq = embedFile_readable [OF Some cks, of index]
  show ?thesis
  proof (cases "isBlank (sanitizeText w raw) \<or> cks = []")
    case True
    with eq skipped show ?thesis by simp
  next
    case False
    show ?thesis
    proof (cases "embedTexts (ollamaEmbed w) (map chunk_text cks)")
      case (Inl err)
      with eq False thrown show ?thesis by simp
    next
      case (Inr vectors)
      with eq False upserted [of cks vectors] show ?thesis by simp
    qed
  qed
qed

lemma embedFile_total: "\<exists>r. embedFile w f index = Some r"
  by (rule embedFile_cases [of w f index]) simp_all

lemma processFiles_total: "\<exists>r. processFiles w files index n = Some r"
proof (induction files arbitrary: index n)
  case Nil
  show ?case by simp
next
  case (Cons f files)
  obtain out index' where "embedFile w f index = Some (out, index')"
    using embedFile_total [of w f index] by auto
  with Cons show ?case by (cases out) simp_all
qed

lemma embedFile_blank:
  "readFile w (file_path f) = Some raw \<Longrightarrow> isBlank (sanitizeText w raw) \<Longrightarrow>
     embedFile w f index = Some (Inr 0, index)"
  by (simp add: embedFile_def)

lemma embedFile_throws:
  assumes "embedFile w f index = Some (Inl err, index')"
  shows "index' = index"
  by (rule embedFile_cases [of w f index]) (use assms in simp_all)

lemma embedFile_skips:
  assumes "embedFile w f index = Some (Inr 0, index')"
  shows "index' = index"
  by (rule embedFile_cases [of w f index]) (use assms in auto)

lemma embedFile_upsert:
  assumes "embedFile w f index = Some (Inr n, index')" "0 < n"
  shows "\<exists>cks vectors. length cks = n \<and> index' = insertChunks (clock w) f cks vectors
     (dropFileFromIndexByPath index (file_path f))"
  by (rule embedFile_cases [of w f index]) (use assms in auto)

lemma upsert_chunks:
  "chunks (insertChunks now f cks vectors (dropFileFromIndexByPath index p)) =
     filter (\<lambda>c. entry_path c \<noteq> p) (chunks index) @ map (freshEntry now f cks vectors) [0..<length cks]"
  by (simp add: insertChunks_def dropFileFromIndexByPath_def)

lemma filter_fresh_same:
  "filter (\<lambda>c. entry_path c = file_path f) (map (freshEntry now f cks vectors) is) =
     map (freshEntry now f cks vectors) is"
  by (induction "is") (simp_all add: freshEntry_def)

lemma filter_fresh_other:
  "filter (\<lambda>c. entry_path c \<noteq> file_path f) (map (freshEntry now f cks vectors) is) = []"
  by (induction "is") (simp_all add: freshEntry_def)

lemma map_chunkId_fresh:
  "map entry_chunkId (map (freshEntry now f cks vectors) is) = is"
  by (induction "is") (simp_all add: freshEntry_def)

text \<open>
  C5, as the claim states it, fails: \<open>embedFile\<close> returns before it drops anything when the
  text is blank.  For the file \<open>blank.txt\<close>, changed to a single space and scanned with the
  hash \<open>new\<close>, and an index that holds two entries of its former content, the call returns
  \<open>{ added: 0 }\<close> and the index still holds the two entries, with the \<open>chunkId\<close> values 0
  and 1 and the hash \<open>old\<close>.
\<close>

theorem skipped_upsert_counterexample:
  "embedFile exampleWorld (exampleFile ''blank.txt'')
     \<lparr>version = 1, chunks = [oldEntry ''blank.txt'' 0, oldEntry ''blank.txt'' 1]\<rparr> =
     Some (Inr 0, \<lparr>version = 1, chunks = [oldEntry ''blank.txt'' 0, oldEntry ''blank.txt'' 1]\<rparr>) \<and>
   file_hash (exampleFile ''blank.txt'') = ''new'' \<and>
   map entry_hash (filter (\<lambda>c. entry_path c = file_path (exampleFile ''blank.txt''))
     [oldEntry ''blank.txt'' 0, oldEntry ''blank.txt'' 1]) = [''old'', ''old''] \<and>
   map entry_chunkId (filter (\<lambda>c. entry_path c = file_path (exampleFile ''blank.txt''))
     [oldEntry ''blank.txt'' 0, oldEntry ''blank.txt'' 1]) = [0, 1]"
proof -
  have r: "readFile exampleWorld (file_path (exampleFile ''blank.txt'')) = Some '' ''"
    by (simp add: exampleWorld_def exampleFile_def)
  have b: "isBlank (sanitizeText exampleWorld '' '')"
    by (simp add: exampleWorld_def isBlank_def isWhiteSpace_def)
  from embedFile_blank [OF r b] show ?thesis
    by (simp add: exampleFile_def oldEntry_def)
qed

text \<open>
  C5, amended.  When \<open>embedFile\<close> has upserted a file (it returns \<open>{ added: n }\<close> with
  \<open>n > 0\<close>), the entries of the index for the path of the file have the \<open>chunkId\<close> values
  \<open>0, \<dots>, n - 1\<close>, in this order and with no gap, every one of them carries the hash of the
  file, and the entries of the other paths are the ones the index had.
\<close>

theorem upsert_fresh_entries:
  assumes "embedFile w f index = Some (Inr n, index')" "0 < n"
  shows "map entry_chunkId (filter (\<lambda>c. entry_path c = file_path f) (chunks index')) = [0..<n] \<and>
    (\<forall>c\<in>set (chunks index'). entry_path c = file_path f \<longrightarrow> entry_hash c = file_hash f) \<and>
    filter (\<lambda>c. entry_path c \<noteq> file_path f) (chunks index') =
      filter (\<lambda>c. entry_path c \<noteq> file_path f) (chunks index)"
proof -
  from embedFile_upsert [OF assms] obtain cks vectors where len: "length cks = n"
    and idx: "index' = insertChunks (clock w) f cks vectors
       (dropFileFromIndexByPath index (file_path f))"
    by blast
  let ?fresh = "map (freshEntry (clock w) f cks vectors) [0..<length cks]"
  have ch: "chunks index' = filter (\<lambda>c. entry_path c \<noteq> file_path f) (chunks index) @ ?fresh"
    by (simp add: idx upsert_chunks)
  have a: "filter (\<lambda>c. entry_path c = file_path f) (chunks index') = ?fresh"
    by (simp add: ch filter_fresh_same)
  have b: "entry_hash c = file_hash f" if "c \<in> set ?fresh" for c
    using that by (auto simp: freshEntry_def)
  have c: "filter (\<lambda>c. entry_path c \<noteq> file_path f) (chunks index') =
      filter (\<lambda>c. entry_path c \<noteq> file_path f) (chunks index)"
    by (simp add: ch filter_fresh_other)
  have "map entry_chunkId (filter (\<lambda>c. entry_path c = file_path f) (chunks index')) = [0..<n]"
    by (simp only: a map_chunkId_fresh len)
  moreover have "\<forall>c\<in>set (chunks index'). entry_path c = file_path f \<longrightarrow> entry_hash c = file_hash f"
    using b by (auto simp: ch)
  ultimately show ?thesis using c by blast
qed

text \<open>Runs on the small repository.\<close>

lemma chunk_ab: "chunkFileContent ''ab'' 2000 200 = Some [\<lparr>chunk_text = ''ab'', chunk_start = 0, chunk_end = 0\<rparr>]"
  by code_simp

lemma chunk_boom: "chunkFileContent ''boom'' 2000 200 = Some [\<lparr>chunk_text = ''boom'', chunk_start = 0, chunk_end = 0\<rparr>]"
  by code_simp

lemma embed_a:
  "embedFile exampleWorld (exampleFile ''a.txt'') index =
     Some (Inr 1, index\<lparr>chunks := filter (\<lambda>c. entry_path c \<noteq> ''a.txt'') (chunks index) @
        [\<lparr>entry_path = ''a.txt'', entry_hash = ''new'', entry_chunkId = 0, entry_start = 0,
          entry_end = 0, entry_vector = Some [1], entry_updated_at = Some ''now''\<rparr>]\<rparr>)"
proof -
  have r: "readFile exampleWorld (file_path (exampleFile ''a.txt'')) = Some ''ab''"
    by (simp add: exampleWorld_def exampleFile_def)
  have c: "chunkFileContent (sanitizeText exampleWorld ''ab'') 2000 200 =
      Some [\<lparr>chunk_text = ''ab'', chunk_start = 0, chunk_end = 0\<rparr>]"
    using chunk_ab by (simp add: exampleWorld_def)
  show ?thesis
    unfolding embedFile_readable [OF r c]
    by (simp add: exampleWorld_def exampleFile_def isBlank_def isWhiteSpace_def embedTexts_def
        insertChunks_def dropFileFromIndexByPath_def freshEntry_def)
qed

lemma embed_bad:
  "embedFile exampleWorld (exampleFile ''bad.txt'') index = Some (Inl ApiFailed, index)"
proof -
  have r: "readFile exampleWorld (file_path (exampleFile ''bad.txt'')) = Some ''boom''"
    by (simp add: exampleWorld_def exampleFile_def)
  have c: "chunkFileContent (sanitizeText exampleWorld ''boom'') 2000 200 =
      Some [\<lparr>chunk_text = ''boom'', chunk_start = 0, chunk_end = 0\<rparr>]"
    using chunk_boom by (simp add: exampleWorld_def)
  show ?thesis
    unfolding embedFile_readable [OF r c]
    by (simp add: exampleWorld_def exampleFile_def isBlank_def isWhiteSpace_def embedTexts_def)
qed

theorem upsert_fresh_entries_witness:
  "embedFile exampleWorld (exampleFile ''a.txt'') exampleIndex =
     Some (Inr 1, \<lparr>version = 1, chunks = [oldEntry ''b.txt'' 0, oldEntry ''bad.txt'' 0,
        \<lparr>entry_path = ''a.txt'', entry_hash = ''new'', entry_chunkId = 0, entry_start = 0,
          entry_end = 0, entry_vector = Some [1], entry_updated_at = Some ''now''\<rparr>]\<rparr>) \<and>
   map entry_chunkId (filter (\<lambda>c. entry_path c = ''a.txt'')
     [oldEntry ''b.txt'' 0, oldEntry ''bad.txt'' 0,
        \<lparr>entry_path = ''a.txt'', entry_hash = ''new'', entry_chunkId = 0, entry_start = 0,
          entry_end = 0, entry_vector = Some [1], entry_updated_at = Some ''now''\<rparr>]) = [0..<1] \<and>
   map entry_hash (filter (\<lambda>c. entry_path c = ''a.txt'')
     [oldEntry ''b.txt'' 0, oldEntry ''bad.txt'' 0,
        \<lparr>entry_path = ''a.txt'', entry_hash = ''new'', entry_chunkId = 0, entry_start = 0,
          entry_end = 0, entry_vector = Some [1], entry_updated_at = Some ''now''\<rparr>]) =
     [file_hash (exampleFile ''a.txt'')]"
proof -
  let ?i = "\<lparr>version = 1, chunks = [oldEntry ''b.txt'' 0, oldEntry ''bad.txt'' 0,
        \<lparr>entry_path = ''a.txt'', entry_hash = ''new'', entry_chunkId = 0, entry_start = 0,
          entry_end = 0, entry_vector = Some [1], entry_updated_at = Some ''now''\<rparr>]\<rparr>"
  have h: "embedFile exampleWorld (exampleFile ''a.txt'') exampleIndex = Some (Inr 1, ?i)"
    unfolding embed_a by (simp add: exampleIndex_def oldEntry_def)
  from upsert_fresh_entries [OF h] h show ?thesis
    by (simp add: exampleFile_def oldEntry_def)
qed

subsection \<open>The empty text\<close>

text \<open>
  C3, as the claim states it, fails: with the default \<open>maxChars = 2000\<close> and
  \<open>overlap = 200\<close>, \<open>chunkFileContent\<close> of the empty string does not return the empty
  sequence.
\<close>

theorem empty_text_counterexample:
  "chunkFileContent [] 2000 200 \<noteq> Some []"
  by (simp add: chunkFileContent_empty)

text \<open>
  C3, amended.  \<open>chunkFileContent\<close> of the empty string returns one chunk, with the empty
  text and the line range \<open>[0, 0]\<close> (no chunk only when \<open>maxChars\<close> is below 1).  An empty
  file gives no chunk in the index because \<open>embedFile\<close> returns \<open>{ added: 0 }\<close>, the index
  untouched, as soon as the sanitized text is blank.
\<close>

theorem empty_text_one_chunk:
  "chunkFileContent [] maxChars overlap =
     Some (if 1 \<le> maxChars then [\<lparr>chunk_text = [], chunk_start = 0, chunk_end = 0\<rparr>] else []) \<and>
   (readFile w (file_path f) = Some raw \<and> isBlank (sanitizeText w raw) \<longrightarrow>
      embedFile w f index = Some (Inr 0, index))"
  by (simp add: chunkFileContent_empty embedFile_blank)

theorem empty_text_one_chunk_witness:
  "readFile exampleWorld (file_path (exampleFile ''blank.txt'')) = Some '' '' \<and>
   isBlank (sanitizeText exampleWorld '' '') \<and>
   chunkFileContent [] 2000 200 = Some [\<lparr>chunk_text = [], chunk_start = 0, chunk_end = 0\<rparr>] \<and>
   embedFile exampleWorld (exampleFile ''blank.txt'') exampleIndex = Some (Inr 0, exampleIndex)"
proof -
  have r: "readFile exampleWorld (file_path (exampleFile ''blank.txt'')) = Some '' ''"
    by (simp add: exampleWorld_def exampleFile_def)
  have b: "isBlank (sanitizeText exampleWorld '' '')"
    by (simp add: exampleWorld_def isBlank_def isWhiteSpace_def)
  from empty_text_one_chunk [of 2000 200 exampleWorld "exampleFile ''blank.txt''" "'' ''" exampleIndex] r b
  show ?thesis by simp
qed

subsection \<open>Failures\<close>

text \<open>
  C6. The embedding loop returns for every list of files.  When \<open>embedFile\<close> throws for a
  file, the index is the one before the call, with every entry it had for that file, and
  the loop goes on with the files that follow; \<open>embedFile\<close> throws in this way as soon as
  the embedding of one chunk of the file fails.  The same holds for a file that cannot be
  read, for which \<open>embedFile\<close> returns \<open>{ added: 0 }\<close>.
\<close>

theorem failure_keeps_index_and_run:
  "(\<exists>r. processFiles w files index n = Some r) \<and>
   (embedFile w f index = Some (Inl err, index') \<longrightarrow>
      index' = index \<and> processFiles w (f # rest) index n = processFiles w rest index n) \<and>
   (readFile w (file_path f) = Some raw \<and> \<not> isBlank (sanitizeText w raw) \<and>
    chunkFileContent (sanitizeText w raw) 2000 200 = Some cks \<and>
    (\<exists>c\<in>set cks. isl (ollamaEmbed w (chunk_text c))) \<longrightarrow>
      (\<exists>e. embedFile w f index = Some (Inl e, index))) \<and>
   (readFile w (file_path f) = None \<longrightarrow>
      embedFile w f index = Some (Inr 0, index) \<and>
      processFiles w (f # rest) index n = processFiles w rest index n)"
proof -
  have "index' = index \<and> processFiles w (f # rest) index n = processFiles w rest index n"
    if h: "embedFile w f index = Some (Inl err, index')"
  proof -
    from embedFile_throws [OF h] have "index' = index" .
    with h show ?thesis by simp
  qed
  moreover have "\<exists>e. embedFile w f index = Some (Inl e, index)"
    if "readFile w (file_path f) = Some raw" "\<not> isBlank (sanitizeText w raw)"
      "chunkFileContent (sanitizeText w raw) 2000 200 = Some cks"
      "\<exists>c\<in>set cks. isl (ollamaEmbed w (chunk_text c))"
  proof -
    from that(4) have "cks \<noteq> []" by auto
    moreover from that(4) obtain e where "embedTexts (ollamaEmbed w) (map chunk_text cks) = Inl e"
      using embedTexts_fails [of "map chunk_text cks" "ollamaEmbed w"] by (auto simp: isl_def)
    ultimately show ?thesis
      using that(2) by (simp add: embedFile_readable [OF that(1,3)])
  qed
  moreover have "embedFile w f index = Some (Inr 0, index) \<and>
      processFiles w (f # rest) index n = processFiles w rest index n"
    if "readFile w (file_path f) = None"
    using embedFile_unreadable [OF that, of index] by simp
  ultimately show ?thesis using processFiles_total [of w files index n] by blast
qed

theorem failure_keeps_index_and_run_witness:
  "readFile exampleWorld (file_path (exampleFile ''bad.txt'')) = Some ''boom'' \<and>
   \<not> isBlank (sanitizeText exampleWorld ''boom'') \<and>
   chunkFileContent (sanitizeText exampleWorld ''boom'') 2000 200 =
     Some [\<lparr>chunk_text = ''boom'', chunk_start = 0, chunk_end = 0\<rparr>] \<and>
   isl (ollamaEmbed exampleWorld ''boom'') \<and>
   embedFile exampleWorld (exampleFile ''bad.txt'') exampleIndex = Some (Inl ApiFailed, exampleIndex) \<and>
   readFile exampleWorld (file_path (exampleFile ''gone.txt'')) = None \<and>
   processFiles exampleWorld [exampleFile ''bad.txt'', exampleFile ''gone.txt'', exampleFile ''a.txt''] exampleIndex 0 =
     Some (1, \<lparr>version = 1, chunks = [oldEntry ''b.txt'' 0, oldEntry ''bad.txt'' 0,
        \<lparr>entry_path = ''a.txt'', entry_hash = ''new'', entry_chunkId = 0, entry_start = 0,
          entry_end = 0, entry_vector = Some [1], entry_updated_at = Some ''now''\<rparr>]\<rparr>)"
proof -
  let ?w = exampleWorld
  let ?bad = "exampleFile ''bad.txt''" and ?gone = "exampleFile ''gone.txt''"
    and ?a = "exampleFile ''a.txt''"
  let ?cks = "[\<lparr>chunk_text = ''boom'', chunk_start = 0, chunk_end = 0\<rparr>]"
  have r: "readFile ?w (file_path ?bad) = Some ''boom''"
    by (simp add: exampleWorld_def exampleFile_def)
  have nb: "\<not> isBlank (sanitizeText ?w ''boom'')"
    by (simp add: exampleWorld_def isBlank_def isWhiteSpace_def)
  have ck: "chunkFileContent (sanitizeText ?w ''boom'') 2000 200 = Some ?cks"
    using chunk_boom by (simp add: exampleWorld_def)
  have fl: "isl (ollamaEmbed ?w ''boom'')"
    by (simp add: exampleWorld_def)
  then have ex: "\<exists>c\<in>set ?cks. isl (ollamaEmbed ?w (chunk_text c))" by simp
  have gone: "readFile ?w (file_path ?gone) = None"
    by (simp add: exampleWorld_def exampleFile_def)
  note at_bad = failure_keeps_index_and_run
    [of ?w "[]" exampleIndex 0 ?bad ApiFailed exampleIndex "[?gone, ?a]" "''boom''" ?cks]
  from at_bad r nb ck ex obtain e where e: "embedFile ?w ?bad exampleIndex = Some (Inl e, exampleIndex)"
    by blast
  then have bad: "embedFile ?w ?bad exampleIndex = Some (Inl ApiFailed, exampleIndex)"
    by (simp add: embed_bad)
  with at_bad
  have 1: "processFiles ?w [?bad, ?gone, ?a] exampleIndex 0 = processFiles ?w [?gone, ?a] exampleIndex 0"
    by blast
  from failure_keeps_index_and_run
    [of ?w "[]" exampleIndex 0 ?gone ApiFailed exampleIndex "[?a]" "''boom''" ?cks] gone
  have 2: "processFiles ?w [?gone, ?a] exampleIndex 0 = processFiles ?w [?a] exampleIndex 0"
    by blast
  have 3: "processFiles ?w [?a] exampleIndex 0 =
     Some (1, \<lparr>version = 1, chunks = [oldEntry ''b.txt'' 0, oldEntry ''bad.txt'' 0,
        \<lparr>entry_path = ''a.txt'', entry_hash = ''new'', entry_chunkId = 0, entry_start = 0,
          entry_end = 0, entry_vector = Some [1], entry_updated_at = Some ''now''\<rparr>]\<rparr>)"
    by (simp add: embed_a) (simp add: exampleIndex_def oldEntry_def)
  from r nb ck fl bad gone 1 2 3 show ?thesis by simp
qed

section \<open>Properties of the retrieval\<close>

lemma representatives_snoc:
  "representatives (xs @ [s]) = addRepresentative (representatives xs) s"
  by (simp add: representatives_def)

lemma representatives_Nil: "representatives [] = []"
  by (simp add: representatives_def)

lemma representatives_paths: "entry_path ` set (representatives xs) = entry_path ` set xs"
  by (induction xs rule: rev_induct)
     (auto simp: representatives_Nil representatives_snoc addRepresentative_def)

lemma representatives_subset: "set (representatives xs) \<subseteq> set xs"
  by (induction xs rule: rev_induct)
     (auto simp: representatives_Nil representatives_snoc addRepresentative_def)

lemma representatives_distinct: "distinct (map entry_path (representatives xs))"
  by (induction xs rule: rev_induct)
     (auto simp: representatives_Nil representatives_snoc addRepresentative_def)

lemma filter_path_empty:
  "p \<notin> entry_path ` set xs \<Longrightarrow> filter (\<lambda>x. entry_path x = p) xs = []"
  by (induction xs) auto

lemma representatives_first:
  "r \<in> set (representatives xs) \<Longrightarrow> \<exists>zs. filter (\<lambda>s. entry_path s = entry_path r) xs = r # zs"
proof (induction xs rule: rev_induct)
  case Nil
  then show ?case by (simp add: representatives_Nil)
next
  case (snoc s xs)
  show ?case
  proof (cases "r \<in> set (representatives xs)")
    case True
    with snoc.IH show ?thesis by auto
  next
    case False
    with snoc.prems have rs: "r = s" and new: "entry_path s \<notin> entry_path ` set (representatives xs)"
      by (auto simp: representatives_snoc addRepresentative_def split: if_splits)
    from new have "entry_path s \<notin> entry_path ` set xs" by (simp add: representatives_paths)
    then have "filter (\<lambda>x. entry_path x = entry_path s) xs = []"
      by (rule filter_path_empty)
    with rs show ?thesis by simp
  qed
qed

lemma groupByFile_snoc: "groupByFile (xs @ [s]) = addToFile (groupByFile xs) s"
  by (simp add: groupByFile_def)

lemma groupByFile_representatives:
  "groupByFile xs =
     map (\<lambda>r. (entry_path r, filter (\<lambda>s. entry_path s = entry_path r) xs)) (representatives xs)"
proof (induction xs rule: rev_induct)
  case Nil
  show ?case by (simp add: groupByFile_def representatives_Nil)
next
  case (snoc s xs)
  let ?g = "\<lambda>ys r. (entry_path r, filter (\<lambda>x. entry_path x = entry_path r) ys)"
  have keys: "fst ` set (groupByFile xs) = entry_path ` set (representatives xs)"
    by (simp add: snoc.IH image_image)
  show ?case
  proof (cases "entry_path s \<in> entry_path ` set (representatives xs)")
    case True
    then have "addToFile (groupByFile xs) s =
        map (\<lambda>(p, arr). if p = entry_path s then (p, arr @ [s]) else (p, arr)) (groupByFile xs)"
      by (simp add: addToFile_def keys)
    also have "\<dots> = map (?g (xs @ [s])) (representatives xs)"
      by (simp add: snoc.IH)
    finally show ?thesis
      using True by (simp add: groupByFile_snoc representatives_snoc addRepresentative_def)
  next
    case False
    then have nopath: "entry_path s \<notin> entry_path ` set xs"
      by (simp add: representatives_paths)
    then have empty: "filter (\<lambda>x. entry_path x = entry_path s) xs = []"
      by (rule filter_path_empty)
    from False have "addToFile (groupByFile xs) s =
        map (\<lambda>(p, arr). if p = entry_path s then (p, arr @ [s]) else (p, arr))
          (groupByFile xs @ [(entry_path s, [])])"
      by (simp add: addToFile_def keys)
    also have "\<dots> = map (?g (xs @ [s])) (representatives xs @ [s])"
      using False by (auto simp: snoc.IH empty)
    finally show ?thesis
      using False by (simp add: groupByFile_snoc representatives_snoc addRepresentative_def)
  qed
qed

lemma sortByScore_ranked: "sorted (map (\<lambda>s. - score s) (sortByScore xs))"
  by (simp add: sortByScore_def)

lemma sortByScore_set: "set (sortByScore xs) = set xs"
  by (simp add: sortByScore_def)

lemma sortByScore_length: "length (sortByScore xs) = length xs"
  by (simp add: sortByScore_def)

lemma sortByScore_id: "sorted (map (\<lambda>s. - score s) xs) \<Longrightarrow> sortByScore xs = xs"
  by (simp add: sortByScore_def sort_key_id_if_sorted)

lemma representatives_ranked:
  "sorted (map (\<lambda>s. - score s) xs) \<Longrightarrow> sorted (map (\<lambda>s. - score s) (representatives xs))"
proof (induction xs rule: rev_induct)
  case Nil
  show ?case by (simp add: representatives_Nil)
next
  case (snoc s xs)
  from snoc.prems have srt: "sorted (map (\<lambda>s. - score s) xs)"
    and le: "\<forall>x\<in>set xs. - score x \<le> - score s"
    by (auto simp: sorted_append)
  from le representatives_subset [of xs]
  have "\<forall>x\<in>set (representatives xs). - score x \<le> - score s" by blast
  with snoc.IH [OF srt] show ?case
    by (simp add: representatives_snoc addRepresentative_def sorted_append)
qed

lemma representatives_best:
  assumes "sorted (map (\<lambda>s. - score s) xs)" "r \<in> set (representatives xs)"
    "y \<in> set xs" "entry_path y = entry_path r"
  shows "score y \<le> score r"
proof -
  from representatives_first [OF assms(2)]
  obtain zs where zs: "filter (\<lambda>s. entry_path s = entry_path r) xs = r # zs" by blast
  from sorted_filter [OF assms(1), of "\<lambda>s. entry_path s = entry_path r"]
  have "sorted (map (\<lambda>s. - score s) (r # zs))" by (simp add: zs)
  then have "\<forall>z\<in>set zs. - score r \<le> - score z" by simp
  moreover from assms(3,4) have "y \<in> set (r # zs)"
    by (simp flip: zs)
  ultimately show ?thesis by auto
qed

lemma pickBest_first_of_each:
  assumes "\<forall>r\<in>set rs. \<exists>zs. sortByScore (g r) = r # zs"
  shows "pickBest k (map (\<lambda>r. (entry_path r, g r)) rs) pick =
    Some (pick @ take (max 1 (k - length pick)) rs)"
  using assms
proof (induction rs arbitrary: pick)
  case Nil
  show ?case by simp
next
  case (Cons r rs)
  from Cons.prems obtain zs where zs: "sortByScore (g r) = r # zs" by auto
  from Cons.prems have rest: "\<forall>r\<in>set rs. \<exists>zs. sortByScore (g r) = r # zs" by simp
  show ?case
  proof (cases "k \<le> Suc (length pick)")
    case True
    then have "max 1 (k - length pick) = 1" by simp
    with True zs show ?thesis by simp
  next
    case False
    then have "max 1 (k - length pick) = Suc (max 1 (k - length (pick @ [r])))" by simp
    with False zs Cons.IH [OF rest, of "pick @ [r]"] show ?thesis by simp
  qed
qed

lemma pickBest_representatives:
  assumes "sorted (map (\<lambda>s. - score s) xs)" "1 \<le> k"
  shows "pickBest k (groupByFile xs) [] = Some (take k (representatives xs))"
proof -
  let ?g = "\<lambda>r. filter (\<lambda>s. entry_path s = entry_path r) xs"
  have "\<exists>zs. sortByScore (?g r) = r # zs" if "r \<in> set (representatives xs)" for r
  proof -
    have "sortByScore (?g r) = ?g r"
      by (rule sortByScore_id) (rule sorted_filter [OF assms(1)])
    with representatives_first [OF that] show ?thesis by simp
  qed
  then have "pickBest k (map (\<lambda>r. (entry_path r, ?g r)) (representatives xs)) [] =
      Some ([] @ take (max 1 (k - length ([] :: scored list))) (representatives xs))"
    by (intro pickBest_first_of_each) blast
  with assms(2) show ?thesis
    by (simp add: groupByFile_representatives max_def)
qed

lemma fillUp_full: "k \<le> length pick \<Longrightarrow> fillUp k xs pick = pick"
  by (subst fillUp.simps) simp

lemma selectTop_enough_files:
  assumes "1 \<le> k" "k \<le> length (representatives (sortByScore xs))"
  shows "selectTop k xs = Some (take k (representatives (sortByScore xs)))"
  using assms
  by (simp add: selectTop_def Let_def pickBest_representatives sortByScore_ranked fillUp_full)

lemma example_ranking:
  assumes "score a1 = 9 / 10" "score a2 = 85 / 100" "score b = 95 / 100"
    and "ys \<in> {[a1, a2, b], [a1, b, a2], [a2, a1, b], [a2, b, a1], [b, a1, a2], [b, a2, a1]}"
  shows "sortByScore ys = [b, a1, a2]"
  using assms by (auto simp: sortByScore_def)

lemma example_selection:
  assumes "entry_path a1 = entry_path a2" "entry_path b \<noteq> entry_path a1"
    and "score a1 = 9 / 10" "score a2 = 85 / 100" "score b = 95 / 100"
    and "ys \<in> {[a1, a2, b], [a1, b, a2], [a2, a1, b], [a2, b, a1], [b, a1, a2], [b, a2, a1]}"
  shows "selectTop 1 ys = Some [b]" "selectTop 2 ys = Some [b, a1]"
proof -
  have rk: "sortByScore ys = [b, a1, a2]"
    using assms(3-6) by (rule example_ranking)
  have reps: "representatives [b, a1, a2] = [b, a1]"
    using assms(1,2) by (auto simp: representatives_def addRepresentative_def)
  show "selectTop 1 ys = Some [b]"
    by (subst selectTop_enough_files) (simp_all add: rk reps)
  show "selectTop 2 ys = Some [b, a1]"
    by (subst selectTop_enough_files) (simp_all add: rk reps)
qed

lemma withScore_path [simp]: "entry_path (withScore x c) = entry_path c"
  by (simp add: withScore_def)

lemma withScore_score [simp]: "score (withScore x c) = x"
  by (simp add: withScore_def)

lemma scoreChunks_map:
  assumes "\<forall>c\<in>set cs. entry_vector c \<noteq> None"
  shows "scoreChunks cosine q cs =
    map (\<lambda>c. withScore (cosine q (the (entry_vector c)) + freshnessBoost c) c) cs"
  using assms by (induction cs) auto

lemma example_retrieval:
  assumes paths: "entry_path a1 = entry_path a2" "entry_path b \<noteq> entry_path a1"
    and vecs: "entry_vector a1 = Some v1" "entry_vector a2 = Some v2" "entry_vector b = Some vb"
    and scores: "cosine q v1 + freshnessBoost a1 = 9 / 10" "cosine q v2 + freshnessBoost a2 = 85 / 100"
      "cosine q vb + freshnessBoost b = 95 / 100"
    and idx: "chunks index \<in> {[a1, a2, b], [a1, b, a2], [a2, a1, b], [a2, b, a1], [b, a1, a2], [b, a2, a1]}"
  shows "retrieve fs cosine q 1 index = Some [contextBlock fs (withScore (95 / 100) b)]"
    and "retrieve fs cosine q 2 index =
      Some [contextBlock fs (withScore (95 / 100) b), contextBlock fs (withScore (9 / 10) a1)]"
proof -
  let ?a1 = "withScore (9 / 10) a1" and ?a2 = "withScore (85 / 100) a2" and ?b = "withScore (95 / 100) b"
  have "\<forall>c\<in>set (chunks index). entry_vector c \<noteq> None"
    using idx vecs by auto
  then have sc_eq: "scoreChunks cosine q (chunks index) =
      map (\<lambda>c. withScore (cosine q (the (entry_vector c)) + freshnessBoost c) c) (chunks index)"
    by (rule scoreChunks_map)
  have mem: "scoreChunks cosine q (chunks index) \<in>
      {[?a1, ?a2, ?b], [?a1, ?b, ?a2], [?a2, ?a1, ?b], [?a2, ?b, ?a1], [?b, ?a1, ?a2], [?b, ?a2, ?a1]}"
    unfolding sc_eq using idx by (elim insertE emptyE) (simp_all add: vecs scores)
  have p: "entry_path ?a1 = entry_path ?a2" "entry_path ?b \<noteq> entry_path ?a1"
    using paths by simp_all
  have sc: "score ?a1 = 9 / 10" "score ?a2 = 85 / 100" "score ?b = 95 / 100"
    by simp_all
  note sel = example_selection [OF p sc mem]
  show "retrieve fs cosine q 1 index = Some [contextBlock fs ?b]"
    unfolding retrieve_def sel(1) by simp
  show "retrieve fs cosine q 2 index = Some [contextBlock fs ?b, contextBlock fs ?a1]"
    unfolding retrieve_def sel(2) by simp
qed

text \<open>
  C4. Diversification.  For \<open>k \<ge> 1\<close>, the selection loop over the files picks the first \<open>k\<close>
  representatives of the ranked list: they are entries of the list, one for every file
  (no two of the same path), each with the highest score among the entries of its file,
  in descending order of score; when there are at least \<open>k\<close> files they are the whole
  result.  For an index that holds, in any order, two chunks of a file A scoring 0.9 and
  0.85 and one chunk of a file B scoring 0.95, the retrieval with \<open>k = 1\<close> returns the block
  of B, and with \<open>k = 2\<close> the block of B followed by the block of A that scores 0.9.
\<close>

theorem diversified_selection:
  "(1 \<le> k \<longrightarrow>
     (let reps = representatives (sortByScore xs) in
        pickBest k (groupByFile (sortByScore xs)) [] = Some (take k reps) \<and>
        set reps \<subseteq> set xs \<and> entry_path ` set reps = entry_path ` set xs \<and>
        distinct (map entry_path reps) \<and>
        sorted_wrt (\<lambda>a b. score b \<le> score a) reps \<and>
        (\<forall>r\<in>set reps. \<forall>y\<in>set xs. entry_path y = entry_path r \<longrightarrow> score y \<le> score r) \<and>
        (k \<le> length reps \<longrightarrow> selectTop k xs = Some (take k reps)))) \<and>
   (entry_path a1 = entry_path a2 \<and> entry_path b \<noteq> entry_path a1 \<and>
    entry_vector a1 = Some v1 \<and> entry_vector a2 = Some v2 \<and> entry_vector b = Some vb \<and>
    cosine q v1 + freshnessBoost a1 = 9 / 10 \<and> cosine q v2 + freshnessBoost a2 = 85 / 100 \<and>
    cosine q vb + freshnessBoost b = 95 / 100 \<and>
    chunks index \<in> {[a1, a2, b], [a1, b, a2], [a2, a1, b], [a2, b, a1], [b, a1, a2], [b, a2, a1]} \<longrightarrow>
      retrieve fs cosine q 1 index = Some [contextBlock fs (withScore (95 / 100) b)] \<and>
      retrieve fs cosine q 2 index =
        Some [contextBlock fs (withScore (95 / 100) b), contextBlock fs (withScore (9 / 10) a1)])"
proof -
  let ?ranked = "sortByScore xs"
  let ?reps = "representatives ?ranked"
  have rk: "sorted (map (\<lambda>s. - score s) ?ranked)" by (rule sortByScore_ranked)
  have general: "pickBest k (groupByFile ?ranked) [] = Some (take k ?reps) \<and>
        set ?reps \<subseteq> set xs \<and> entry_path ` set ?reps = entry_path ` set xs \<and>
        distinct (map entry_path ?reps) \<and>
        sorted_wrt (\<lambda>a b. score b \<le> score a) ?reps \<and>
        (\<forall>r\<in>set ?reps. \<forall>y\<in>set xs. entry_path y = entry_path r \<longrightarrow> score y \<le> score r) \<and>
        (k \<le> length ?reps \<longrightarrow> selectTop k xs = Some (take k ?reps))"
    if k: "1 \<le> k"
  proof -
    have 1: "pickBest k (groupByFile ?ranked) [] = Some (take k ?reps)"
      using rk k by (rule pickBest_representatives)
    have 2: "set ?reps \<subseteq> set xs"
      using representatives_subset [of ?ranked] by (simp add: sortByScore_set)
    have 3: "entry_path ` set ?reps = entry_path ` set xs"
      by (simp add: representatives_paths sortByScore_set)
    have 4: "distinct (map entry_path ?reps)" by (rule representatives_distinct)
    have 5: "sorted_wrt (\<lambda>a b. score b \<le> score a) ?reps"
      using representatives_ranked [OF rk] by (simp add: sorted_map)
    have 6: "\<forall>r\<in>set ?reps. \<forall>y\<in>set xs. entry_path y = entry_path r \<longrightarrow> score y \<le> score r"
      using representatives_best [OF rk] by (simp add: sortByScore_set)
    have 7: "k \<le> length ?reps \<longrightarrow> selectTop k xs = Some (take k ?reps)"
      using k by (simp add: selectTop_enough_files)
    from 1 2 3 4 5 6 7 show ?thesis by blast
  qed
  have example: "retrieve fs cosine q 1 index = Some [contextBlock fs (withScore (95 / 100) b)] \<and>
      retrieve fs cosine q 2 index =
        Some [contextBlock fs (withScore (95 / 100) b), contextBlock fs (withScore (9 / 10) a1)]"
    if "entry_path a1 = entry_path a2" "entry_path b \<noteq> entry_path a1"
      "entry_vector a1 = Some v1" "entry_vector a2 = Some v2" "entry_vector b = Some vb"
      "cosine q v1 + freshnessBoost a1 = 9 / 10" "cosine q v2 + freshnessBoost a2 = 85 / 100"
      "cosine q vb + freshnessBoost b = 95 / 100"
      "chunks index \<in> {[a1, a2, b], [a1, b, a2], [a2, a1, b], [a2, b, a1], [b, a1, a2], [b, a2, a1]}"
    using example_retrieval [of a1 a2 b v1 v2 vb cosine q index fs] that by blast
  from general example show ?thesis unfolding Let_def by blast
qed

theorem diversified_selection_witness:
  "retrieve (\<lambda>p. None) (\<lambda>q v. sum_list v) [] 1
     \<lparr>version = 1, chunks = [exampleEntry ''A'' 0 (9 / 10), exampleEntry ''A'' 1 (85 / 100),
                             exampleEntry ''B'' 0 (95 / 100)]\<rparr> =
     Some [\<lparr>block_path = ''B'', block_start = 0, block_end = 0, block_text = []\<rparr>] \<and>
   retrieve (\<lambda>p. None) (\<lambda>q v. sum_list v) [] 2
     \<lparr>version = 1, chunks = [exampleEntry ''A'' 0 (9 / 10), exampleEntry ''A'' 1 (85 / 100),
                             exampleEntry ''B'' 0 (95 / 100)]\<rparr> =
     Some [\<lparr>block_path = ''B'', block_start = 0, block_end = 0, block_text = []\<rparr>,
           \<lparr>block_path = ''A'', block_start = 0, block_end = 0, block_text = []\<rparr>] \<and>
   pickBest 2 (groupByFile (sortByScore
       [withScore (9 / 10) (exampleEntry ''A'' 0 (9 / 10)),
        withScore (85 / 100) (exampleEntry ''A'' 1 (85 / 100)),
        withScore (95 / 100) (exampleEntry ''B'' 0 (95 / 100))])) [] =
     Some [withScore (95 / 100) (exampleEntry ''B'' 0 (95 / 100)),
           withScore (9 / 10) (exampleEntry ''A'' 0 (9 / 10))] \<and>
   selectTop 2
       [withScore (9 / 10) (exampleEntry ''A'' 0 (9 / 10)),
        withScore (85 / 100) (exampleEntry ''A'' 1 (85 / 100)),
        withScore (95 / 100) (exampleEntry ''B'' 0 (95 / 100))] =
     Some [withScore (95 / 100) (exampleEntry ''B'' 0 (95 / 100)),
           withScore (9 / 10) (exampleEntry ''A'' 0 (9 / 10))]"
proof -
  let ?a1 = "exampleEntry ''A'' 0 (9 / 10)" and ?a2 = "exampleEntry ''A'' 1 (85 / 100)"
    and ?b = "exampleEntry ''B'' 0 (95 / 100)"
  let ?xs = "[withScore (9 / 10) ?a1, withScore (85 / 100) ?a2, withScore (95 / 100) ?b]"
  let ?index = "\<lparr>version = 1, chunks = [?a1, ?a2, ?b]\<rparr>"
  note inst = diversified_selection
    [of 2 ?xs ?a1 ?a2 ?b "[9 / 10]" "[85 / 100]" "[95 / 100]" "\<lambda>q v. sum_list v" "[]" ?index "\<lambda>p. None"]
  have hyps: "entry_path ?a1 = entry_path ?a2" "entry_path ?b \<noteq> entry_path ?a1"
    "entry_vector ?a1 = Some [9 / 10]" "entry_vector ?a2 = Some [85 / 100]"
    "entry_vector ?b = Some [95 / 100]"
    "sum_list [9 / 10 :: real] + freshnessBoost ?a1 = 9 / 10"
    "sum_list [85 / 100 :: real] + freshnessBoost ?a2 = 85 / 100"
    "sum_list [95 / 100 :: real] + freshnessBoost ?b = 95 / 100"
    "chunks ?index \<in> {[?a1, ?a2, ?b], [?a1, ?b, ?a2], [?a2, ?a1, ?b], [?a2, ?b, ?a1],
        [?b, ?a1, ?a2], [?b, ?a2, ?a1]}"
    by (simp_all add: exampleEntry_def freshnessBoost_def)
  from inst hyps
  have r: "retrieve (\<lambda>p. None) (\<lambda>q v. sum_list v) [] 1 ?index =
        Some [contextBlock (\<lambda>p. None) (withScore (95 / 100) ?b)]"
      "retrieve (\<lambda>p. None) (\<lambda>q v. sum_list v) [] 2 ?index =
        Some [contextBlock (\<lambda>p. None) (withScore (95 / 100) ?b),
              contextBlock (\<lambda>p. None) (withScore (9 / 10) ?a1)]"
    by blast+
  have "(1::nat) \<le> 2" by simp
  with inst have p: "pickBest 2 (groupByFile (sortByScore ?xs)) [] =
      Some (take 2 (representatives (sortByScore ?xs)))"
    and q: "2 \<le> length (representatives (sortByScore ?xs)) \<longrightarrow>
      selectTop 2 ?xs = Some (take 2 (representatives (sortByScore ?xs)))"
    unfolding Let_def by blast+
  have rk: "sortByScore ?xs = [withScore (95 / 100) ?b, withScore (9 / 10) ?a1, withScore (85 / 100) ?a2]"
    by (simp add: sortByScore_def)
  have reps: "representatives [withScore (95 / 100) ?b, withScore (9 / 10) ?a1, withScore (85 / 100) ?a2] =
      [withScore (95 / 100) ?b, withScore (9 / 10) ?a1]"
    by (simp add: representatives_def addRepresentative_def exampleEntry_def)
  have blocks: "contextBlock (\<lambda>p. None) (withScore (95 / 100) ?b) =
      \<lparr>block_path = ''B'', block_start = 0, block_end = 0, block_text = []\<rparr>"
    "contextBlock (\<lambda>p. None) (withScore (9 / 10) ?a1) =
      \<lparr>block_path = ''A'', block_start = 0, block_end = 0, block_text = []\<rparr>"
    by (simp_all add: contextBlock_def readSlice_def withScore_def exampleEntry_def)
  from q have "selectTop 2 ?xs = Some (take 2 (representatives (sortByScore ?xs)))"
    unfolding rk reps by simp
  with r p show ?thesis
    unfolding blocks rk reps by simp
qed

subsection \<open>Reading the lines of a block back\<close>

text \<open>
  For line numbers within the file, \<open>readSlice\<close> returns the lines from \<open>start\<close> up to,
  but without, the line \<open>end\<close>.
\<close>

lemma readSlice_range:
  assumes "fs p = Some txt" "s \<le> e" "e \<le> length (split_lines txt)" "int e < 2147483648"
  shows "readSlice fs p (int s) (int e) = Some (join_lines (map ((!) (split_lines txt)) [s..<e]))"
proof -
  have "toInt32 (int s) = int s" "toInt32 (int e) = int e"
    using assms(2,4) by (simp_all add: toInt32_def)
  with assms(1,2,3) show ?thesis
    by (simp add: readSlice_def Let_def js_slice_nat)
qed

text \<open>
  C7. The claim is that the text of a block is the range \<open>[startLine, endLine]\<close> of the
  file, both lines included.  The code does not do so: for the file of the three lines
  \<open>a\<close>, \<open>b\<close>, \<open>c\<close>, which \<open>chunkFileContent\<close> makes one chunk with \<open>start = 0\<close> and \<open>end = 2\<close>,
  \<open>readSlice\<close> of 0 and 2 gives the lines \<open>a\<close> and \<open>b\<close> only, and for a chunk of one line it
  gives the empty text.  A file that cannot be read gives a block with the empty text.
\<close>

theorem readSlice_drops_end_line:
  "chunkFileContent (''a'' @ [LF] @ ''b'' @ [LF] @ ''c'') 2000 200 =
     Some [\<lparr>chunk_text = ''a'' @ [LF] @ ''b'' @ [LF] @ ''c'', chunk_start = 0, chunk_end = 2\<rparr>] \<and>
   readSlice (\<lambda>p. Some (''a'' @ [LF] @ ''b'' @ [LF] @ ''c'')) ''f.txt'' 0 2 = Some (''a'' @ [LF] @ ''b'') \<and>
   readSlice (\<lambda>p. Some ''hello'') ''f.txt'' 0 0 = Some [] \<and>
   block_text (contextBlock (\<lambda>p. None) c) = []"
proof -
  have "block_text (contextBlock (\<lambda>p. None) c) = []"
    by (simp add: contextBlock_def readSlice_def)
  moreover have "chunkFileContent (''a'' @ [LF] @ ''b'' @ [LF] @ ''c'') 2000 200 =
     Some [\<lparr>chunk_text = ''a'' @ [LF] @ ''b'' @ [LF] @ ''c'', chunk_start = 0, chunk_end = 2\<rparr>]"
    by code_simp
  moreover have "readSlice (\<lambda>p. Some (''a'' @ [LF] @ ''b'' @ [LF] @ ''c'')) ''f.txt'' 0 2 =
     Some (''a'' @ [LF] @ ''b'')"
    by code_simp
  moreover have "readSlice (\<lambda>p. Some ''hello'') ''f.txt'' 0 0 = Some []"
    by code_simp
  ultimately show ?thesis by blast
qed

section \<open>Properties of the scan\<close>

text \<open>
  The tally counts, for every extension \<open>fileExt\<close> gives that is not empty, the files of
  the returned set with this extension.
\<close>

lemma tallied_step:
  assumes "tallied files languages"
  shows "tallied (files @ [\<lparr>file_path = rel, file_sizeKB = kb, file_hash = h\<rparr>]) (tally languages rel)"
  using assms
  by (auto simp: tallied_def tally_def extCount_def Let_def)

lemma scanLoop_tallied:
  "tallied files languages \<Longrightarrow>
     tallied (fst (scanLoop stat hashOf maxFileKB rels (files, languages)))
             (snd (scanLoop stat hashOf maxFileKB rels (files, languages)))"
proof (induction rels arbitrary: files languages)
  case Nil
  then show ?case by simp
next
  case (Cons rel rels)
  show ?case
  proof (cases "stat rel")
    case None
    with Cons show ?thesis by simp
  next
    case (Some bytes)
    show ?thesis
    proof (cases "(bytes + 1023) div 1024 > maxFileKB")
      case True
      with Some Cons show ?thesis by (simp add: Let_def)
    next
      case False
      from Cons.prems
      have "tallied (files @ [\<lparr>file_path = rel, file_sizeKB = (bytes + 1023) div 1024, file_hash = hashOf rel\<rparr>])
          (tally languages rel)"
        by (rule tallied_step)
      from Cons.IH [OF this] Some False show ?thesis by (simp add: Let_def)
    qed
  qed
qed

lemma scanRepo_languages:
  "snd (scanRepo stat hashOf maxFileKB relPaths) ext =
     (if ext \<noteq> [] \<and> 0 < extCount (fst (scanRepo stat hashOf maxFileKB relPaths)) ext
      then Some (extCount (fst (scanRepo stat hashOf maxFileKB relPaths)) ext) else None)"
proof -
  have "tallied [] Map.empty" by (simp add: tallied_def extCount_def)
  from scanLoop_tallied [OF this, of stat hashOf maxFileKB relPaths]
  show ?thesis by (simp add: scanRepo_def tallied_def)
qed

text \<open>A path without a dot is, in lower case, its own extension.\<close>

lemma splitDot_no_dot: "CHR ''.'' \<notin> set rel \<Longrightarrow> splitDot rel = [rel]"
  by (induction rel) auto

lemma fileExt_no_dot: "CHR ''.'' \<notin> set rel \<Longrightarrow> fileExt rel = map toLowerChar rel"
  by (simp add: fileExt_def splitDot_no_dot)

text \<open>
  C9. The claim is that files without an extension are left out of the tally.  The code
  does not do so: the scan of the single file \<open>Makefile\<close> counts one file for the
  language \<open>makefile\<close>, and the file \<open>docs/README\<close> has the extension \<open>docs/readme\<close>.
\<close>

theorem extensionless_file_is_tallied:
  "fileExt ''src/Main.JS'' = ''js'' \<and>
   fileExt ''Makefile'' = ''makefile'' \<and>
   snd (scanRepo (\<lambda>p. Some 10) (\<lambda>p. ''h'') 256 [''Makefile'']) ''makefile'' = Some 1 \<and>
   fileExt ''docs/README'' = ''docs/readme''"
  by code_simp

end
